theory Spec2Isabelle
  imports Main "HOL-Library.Word"
begin

unbundle bit_operations_syntax

section \<open>Data model of Assemble.c\<close>

type_synonym u32 = "32 word"

text \<open>
  The constants of md\_p.h and mdadm.h that Assemble.c names. The headers are not part
  of the sources, so the values are parameters of the model: the number of slots of a
  superblock, the bit numbers of the per-disk and per-array state flags, and the
  ``not given'' value of an identity field.
\<close>

record md_consts =
  MD_SB_DISKS :: nat
  MD_DISK_FAULTY :: nat
  MD_DISK_ACTIVE :: nat
  MD_DISK_SYNC :: nat
  MD_DISK_REMOVED :: nat
  MD_SB_CLEAN :: nat
  UnSet :: int

text \<open>\<open>1 << n\<close> on a 32-bit value.\<close>

definition flag :: "nat \<Rightarrow> u32" where
  "flag n = push_bit n 1"

text \<open>
  A per-slot disk descriptor and the superblock, with the fields Assemble.c reads or
  writes (all of them 32-bit words in the version-0.90 format; the set UUID is kept as
  one 128-bit value). \<open>disks\<close> is the array \<open>disks[MD_SB_DISKS]\<close>.
\<close>

record mdp_disk =
  d_number :: u32
  d_major :: u32
  d_minor :: u32
  d_raid_disk :: u32
  d_state :: u32

record mdp_super =
  md_magic :: u32
  set_uuid :: "128 word"
  ctime :: u32
  level :: u32
  sb_size :: u32
  nr_disks :: u32
  raid_disks :: u32
  md_minor :: u32
  sb_utime :: u32
  sb_state :: u32
  active_disks :: u32
  working_disks :: u32
  failed_disks :: u32
  spare_disks :: u32
  sb_csum :: u32
  events_hi :: u32
  events_lo :: u32
  recovery_cp :: u32
  layout :: u32
  chunk_size :: u32
  disks :: "mdp_disk list"
  this_disk :: mdp_disk

text \<open>The identity record \<open>mddev_ident_t\<close>; \<open>ident_devices = None\<close> is the NULL pointer.\<close>

record mddev_ident =
  ident_uuid_set :: bool
  ident_uuid :: "128 word"
  ident_super_minor :: int
  ident_level :: int
  ident_raid_disks :: int
  ident_devices :: "string option"

text \<open>
  One entry of the local array \<open>devices\<close>. \<open>events\<close> is a \<open>long long\<close>, kept as its
  signed value; \<open>raid_disk\<close> and \<open>state\<close> are stored as \<open>int\<close> and only ever read back
  as the unsigned words they were copied from.
\<close>

record device =
  devname :: string
  major :: u32
  minor :: u32
  oldmajor :: u32
  oldminor :: u32
  events :: int
  utime :: u32
  uptodate :: bool
  state :: u32
  raid_disk :: u32

subsection \<open>Observable effects\<close>

datatype kernel_call =
    GET_ARRAY_INFO
  | STOP_ARRAY
  | SET_ARRAY_INFO
  | ADD_NEW_DISK u32 u32
  | RUN_ARRAY
  | START_ARRAY u32 u32

text \<open>Every \<open>fprintf(stderr, ...)\<close> of Assemble, in the order of the source.\<close>

datatype message =
    Not_an_md_device
  | Driver_too_old
  | Already_active
  | No_identity_information
  | Looking_for_devices
  | Is_not_one_of string
  | Cannot_open_device string
  | Fstat_failed string
  | Not_a_block_device string
  | No_RAID_superblock string
  | Wrong_uuid string
  | Wrong_super_minor string
  | Wrong_raid_level string
  | Wrong_number_of_drives string
  | No_superblock_aborted string
  | Doesnt_match_others string
  | Too_many_devices string
  | Adjusting_for_sparc string
  | Updating_minor string u32
  | Cannot_open_for_update string
  | Could_not_rewrite_update string
  | Identified_as_member string u32
  | No_devices_found
  | Forcing_event_count string u32 u32 u32
  | Force_could_not_open string
  | Force_superblock_disappeared string
  | Force_could_not_rewrite string
  | Chosen_cannot_open string
  | Chosen_superblock_disappeared string
  | Clearing_FAULTY nat string
  | Wrong_state_in_superblock nat string
  | Not_marked_FAULTY nat
  | Writeback_cannot_open string
  | Writeback_could_not_rewrite string
  | SET_ARRAY_INFO_failed
  | Failed_to_add string
  | Added string u32
  | No_uptodate_device nat
  | Started u32 bool u32
  | Failed_to_RUN_ARRAY
  | Assembled_not_started u32
  | Assembled_not_enough u32 u32
  | Assembled_need_all u32 u32 u32
  | Assembled_need_some u32 u32 u32 u32
  | Cannot_start_array

text \<open>
  The trace of one call of Assemble: the ioctls on the array handle, the calls of
  \<open>store_super\<close> (device name and the superblock handed over) and the diagnostics.
\<close>

datatype event =
    Ioctl kernel_call
  | Store_super string mdp_super
  | Msg message

text \<open>
  How Assemble ends: it returns an exit status, or it reads or writes outside an array
  (which C leaves undefined).
\<close>

datatype outcome = Return int | Undefined

subsection \<open>The environment\<close>

text \<open>What opening, stat-ing and loading one device path gives in the probe loop.\<close>

datatype probe_result =
    Open_failed
  | Fstat_fails
  | Not_block
  | Load_failed
  | Loaded u32 u32 mdp_super

text \<open>
  Everything Assemble obtains from outside: the results of the system calls and ioctls,
  and the helpers of util.c and config.c that are not part of the sources
  (\<open>match_oneof\<close>, \<open>conf_get_devs\<close>, \<open>calc_sb_csum\<close>, \<open>enough\<close>). The \<open>sparc2.2\<close> update
  moves raw words of the superblock, so it is a function on superblocks here.
  \<open>stale_super\<close> is the content of the local \<open>super\<close> when no drive is chosen and
  the reconciler reads it all the same (whatever the last \<open>load_super\<close> left there).
\<close>

record env =
  md_get_version :: int
  get_linux_version :: int
  GET_ARRAY_INFO_ok :: bool
  conf_get_devs :: "string \<Rightarrow> string list"
  match_oneof :: "string \<Rightarrow> string \<Rightarrow> bool"
  probe :: "string \<Rightarrow> probe_result"
  mdfd_minor :: u32
  sparc22_shift :: "mdp_super \<Rightarrow> mdp_super"
  calc_sb_csum :: "mdp_super \<Rightarrow> u32"
  update_open_ok :: "string \<Rightarrow> bool"
  update_store_ok :: "string \<Rightarrow> bool"
  enough :: "u32 \<Rightarrow> u32 \<Rightarrow> u32 \<Rightarrow> bool list \<Rightarrow> u32 \<Rightarrow> bool"
  force_open_ok :: "string \<Rightarrow> bool"
  force_load :: "string \<Rightarrow> mdp_super option"
  force_store_ok :: "string \<Rightarrow> bool"
  chosen_open_ok :: "string \<Rightarrow> bool"
  chosen_load :: "string \<Rightarrow> mdp_super option"
  stale_super :: mdp_super
  writeback_open_ok :: "string \<Rightarrow> bool"
  writeback_store_ok :: "string \<Rightarrow> bool"
  SET_ARRAY_INFO_ok :: bool
  ADD_NEW_DISK_ok :: "u32 \<Rightarrow> u32 \<Rightarrow> bool"
  RUN_ARRAY_ok :: bool
  START_ARRAY_ok :: bool

section \<open>The probe loop (lines 180 to 383)\<close>

text \<open>
  Modelled from the spec: \<open>md_event\<close> of util.c, ``returns 64-bit from
  \<open>events_hi<<32 | events_lo\<close>''; the value is stored in a \<open>long long\<close>.
\<close>

definition md_event :: "mdp_super \<Rightarrow> int" where
  "md_event sb = sint (word_of_int (uint (events_hi sb) * 2 ^ 32 + uint (events_lo sb)) :: 64 word)"

text \<open>
  Modelled from the spec: \<open>compare_super\<close> of util.c. ``The first committed device's
  superblock becomes the reference. compare(reference, candidate) checks equality of the
  generic prefix (magic, set UUID, level, raid\_disks, layout, size, chunk size, ctime)''.
  The reference starts out empty (\<open>first_super.md_magic = 0\<close>), which is \<open>None\<close> here.
  The first component is the C result: \<open>True\<close> for a mismatch.
\<close>

definition compare_super :: "mdp_super option \<Rightarrow> mdp_super \<Rightarrow> bool \<times> mdp_super option" where
  "compare_super first second =
     (case first of
        None \<Rightarrow> (False, Some second)
      | Some f \<Rightarrow>
          (\<not> (md_magic f = md_magic second \<and> set_uuid f = set_uuid second \<and>
               level f = level second \<and> raid_disks f = raid_disks second \<and>
               layout f = layout second \<and> sb_size f = sb_size second \<and>
               chunk_size f = chunk_size second \<and> ctime f = ctime second),
           Some f))"

text \<open>The body of the \<open>summaries\<close> loop for one slot \<open>i\<close> (lines 307 to 322).\<close>

definition summaries_step :: "md_consts \<Rightarrow> mdp_super \<Rightarrow> nat \<Rightarrow> mdp_super" where
  "summaries_step K sb i =
     (let d = disks sb ! i in
      if d_major d \<noteq> 0 \<or> d_minor d \<noteq> 0 then
        (let st = d_state d in
         if st AND flag (MD_DISK_REMOVED K) \<noteq> 0 then sb
         else
           sb\<lparr>nr_disks := nr_disks sb + 1,
              active_disks :=
                (if st AND flag (MD_DISK_ACTIVE K) \<noteq> 0 then active_disks sb + 1
                 else active_disks sb),
              failed_disks :=
                (if st AND flag (MD_DISK_FAULTY K) \<noteq> 0 then failed_disks sb + 1
                 else failed_disks sb),
              working_disks :=
                (if st AND flag (MD_DISK_FAULTY K) \<noteq> 0 then working_disks sb
                 else working_disks sb + 1),
              spare_disks := (if st = 0 then spare_disks sb + 1 else spare_disks sb)\<rparr>)
      else if unat (raid_disks sb) \<le> i \<and> d_number d = 0 then
        sb\<lparr>disks := (disks sb)[i := d\<lparr>d_state := 0\<rparr>]\<rparr>
      else sb)"

definition update_summaries :: "md_consts \<Rightarrow> mdp_super \<Rightarrow> mdp_super" where
  "update_summaries K sb =
     foldl (summaries_step K)
       (sb\<lparr>nr_disks := 0, active_disks := 0, working_disks := 0, failed_disks := 0,
           spare_disks := 0\<rparr>)
       [0 ..< MD_SB_DISKS K]"

text \<open>
  The \<open>if (update)\<close> block (lines 276 to 339): the four modes, the new checksum and the
  attempt to write the superblock back. A failure to write is reported and nothing more.
\<close>

definition apply_update ::
  "md_consts \<Rightarrow> env \<Rightarrow> bool \<Rightarrow> string \<Rightarrow> string \<Rightarrow> mdp_super \<Rightarrow> event list \<times> mdp_super" where
  "apply_update K E verbose upd name sb =
     (let s1 = (if upd = ''sparc2.2'' then sparc22_shift E sb else sb);
          t1 = (if upd = ''sparc2.2'' then [Msg (Adjusting_for_sparc name)] else []);
          s2 = (if upd = ''super-minor'' then s1\<lparr>md_minor := mdfd_minor E\<rparr> else s1);
          t2 = (if upd = ''super-minor'' \<and> verbose
                then [Msg (Updating_minor name (mdfd_minor E))] else []);
          s3 = (if upd = ''summaries'' then update_summaries K s2 else s2);
          s4 = (if upd = ''resync''
                then s3\<lparr>sb_state := sb_state s3 AND NOT (flag (MD_SB_CLEAN K)),
                        recovery_cp := 0\<rparr>
                else s3);
          s5 = s4\<lparr>sb_csum := calc_sb_csum E s4\<rparr>;
          t3 = (if \<not> update_open_ok E name then [Msg (Cannot_open_for_update name)]
                else if \<not> update_store_ok E name
                then [Store_super name s5, Msg (Could_not_rewrite_update name)]
                else [Store_super name s5])
      in (t1 @ t2 @ t3, s5))"

text \<open>
  The state the probe loop carries from one device to the next: the reference
  superblock, the array \<open>devices\<close> (\<open>devcnt\<close> is its length), the array \<open>best\<close>
  (\<open>bestcnt\<close> is its length; the entry \<open>-1\<close> is \<open>None\<close>) and \<open>most_recent\<close>.
\<close>

record pstate =
  first_super :: "mdp_super option"
  devices :: "device list"
  best :: "nat option list"
  most_recent :: nat

definition pstate0 :: pstate where
  "pstate0 = \<lparr>first_super = None, devices = [], best = [], most_recent = 0\<rparr>"

text \<open>Lines 344 to 353: the entry of \<open>devices\<close> for a committed device.\<close>

definition record_device :: "string \<Rightarrow> u32 \<Rightarrow> u32 \<Rightarrow> mdp_super \<Rightarrow> device" where
  "record_device name maj mnr sb =
     \<lparr>devname = name, major = maj, minor = mnr,
      oldmajor = d_major (this_disk sb), oldminor = d_minor (this_disk sb),
      events = md_event sb, utime = sb_utime sb, uptodate = False,
      state = d_state (this_disk sb), raid_disk = d_raid_disk (this_disk sb)\<rparr>"

text \<open>
  The slot a committed device claims (lines 359 to 364): its arrival index for
  multipath (\<open>lvl\<close> is \<open>super.level\<close>), its \<open>raid_disk\<close> otherwise, and none from
  10000 on.
\<close>

definition slot_key :: "u32 \<Rightarrow> device \<Rightarrow> nat \<Rightarrow> nat option" where
  "slot_key lvl dev devcnt =
     (let i = (if sint lvl = - 4 then devcnt else unat (raid_disk dev)) in
      if i < 10000 then Some i else None)"

text \<open>Lines 365 to 377: \<open>best\<close> grows to \<open>i + 10\<close> entries, the new ones \<open>-1\<close>.\<close>

definition grow_best :: "nat option list \<Rightarrow> nat \<Rightarrow> nat option list" where
  "grow_best b i = (if length b \<le> i then b @ replicate (i + 10 - length b) None else b)"

text \<open>
  Lines 344 to 382 for the device \<open>dev\<close> with superblock \<open>sb\<close>: it becomes
  \<open>devices[devcnt]\<close>, \<open>most_recent\<close> moves to it when it has more events, and it takes
  its slot of \<open>best\<close> when the slot is free or held by a device with fewer events.
\<close>

definition commit_device :: "mdp_super \<Rightarrow> device \<Rightarrow> pstate \<Rightarrow> pstate" where
  "commit_device sb dev s =
     (let devcnt = length (devices s);
          devs = devices s @ [dev];
          mr = (if most_recent s < devcnt \<and> events (devs ! most_recent s) < events dev
                then devcnt else most_recent s);
          bst = (case slot_key (level sb) dev devcnt of
                   None \<Rightarrow> best s
                 | Some i \<Rightarrow>
                     (let b = grow_best (best s) i in
                      case b ! i of
                        None \<Rightarrow> b[i := Some devcnt]
                      | Some k \<Rightarrow>
                          if events (devs ! k) < events dev then b[i := Some devcnt] else b))
      in s\<lparr>devices := devs, best := bst, most_recent := mr\<rparr>)"

text \<open>
  The identity filter (lines 222 to 249): the diagnostic of the first check that rejects
  the device, if any. \<open>so\<close> is the superblock when \<open>havesuper\<close> is set.
  Modelled from the spec: \<open>uuid_from_super\<close> and \<open>same_uuid\<close> of util.c, ``UUID \<noteq>
  requested UUID''.
\<close>

definition ident_reject ::
  "md_consts \<Rightarrow> mddev_ident \<Rightarrow> mdp_super option \<Rightarrow> string \<Rightarrow> message option" where
  "ident_reject K ident so name =
     (if ident_uuid_set ident \<and>
         (case so of None \<Rightarrow> True | Some sb \<Rightarrow> set_uuid sb \<noteq> ident_uuid ident)
      then Some (Wrong_uuid name)
      else if ident_super_minor ident \<noteq> UnSet K \<and>
         (case so of None \<Rightarrow> True
          | Some sb \<Rightarrow> word_of_int (ident_super_minor ident) \<noteq> md_minor sb)
      then Some (Wrong_super_minor name)
      else if ident_level ident \<noteq> UnSet K \<and>
         (case so of None \<Rightarrow> True | Some sb \<Rightarrow> ident_level ident \<noteq> sint (level sb))
      then Some (Wrong_raid_level name)
      else if ident_raid_disks ident \<noteq> UnSet K \<and>
         (case so of None \<Rightarrow> True
          | Some sb \<Rightarrow> word_of_int (ident_raid_disks ident) \<noteq> raid_disks sb)
      then Some (Wrong_number_of_drives name)
      else None)"

text \<open>Lines 197 to 220: the diagnostic of a failed probe.\<close>

definition probe_msgs :: "bool \<Rightarrow> string \<Rightarrow> probe_result \<Rightarrow> event list" where
  "probe_msgs loud name pr =
     (case pr of
        Open_failed \<Rightarrow> if loud then [Msg (Cannot_open_device name)] else []
      | Fstat_fails \<Rightarrow> [Msg (Fstat_failed name)]
      | Not_block \<Rightarrow> [Msg (Not_a_block_device name)]
      | Load_failed \<Rightarrow> if loud then [Msg (No_RAID_superblock name)] else []
      | Loaded maj mnr sb \<Rightarrow> [])"

text \<open>
  One turn of the probe loop. \<open>Skipped\<close> is a \<open>continue\<close>, \<open>Fatal\<close> a \<open>return\<close>,
  \<open>Committed\<close> the end of the body with \<open>devcnt++\<close>.
\<close>

datatype probe_outcome = Fatal int | Skipped pstate | Committed pstate

definition probe_one ::
  "md_consts \<Rightarrow> env \<Rightarrow> mddev_ident \<Rightarrow> bool \<Rightarrow> bool \<Rightarrow> string option \<Rightarrow>
   pstate \<Rightarrow> string \<Rightarrow> event list \<times> probe_outcome" where
  "probe_one K E ident inargv verbose update s name =
     (let loud = (inargv \<or> verbose) in
      if (case ident_devices ident of None \<Rightarrow> False | Some pat \<Rightarrow> \<not> match_oneof E pat name)
      then (if loud then [Msg (Is_not_one_of name)] else [], Skipped s)
      else
        (let pr = probe E name;
             t0 = probe_msgs loud name pr;
             so = (case pr of Loaded maj mnr sb \<Rightarrow> Some sb | _ \<Rightarrow> None)
         in case ident_reject K ident so name of
              Some m \<Rightarrow> (t0 @ (if loud then [Msg m] else []), Skipped s)
            | None \<Rightarrow>
               (case pr of
                  Loaded maj mnr sb \<Rightarrow>
                    (case compare_super (first_super s) sb of
                       (True, fs) \<Rightarrow> (t0 @ [Msg (Doesnt_match_others name)], Fatal 1)
                     | (False, fs) \<Rightarrow>
                        (let s1 = s\<lparr>first_super := fs\<rparr> in
                         if MD_SB_DISKS K \<le> length (devices s1)
                         then (t0 @ [Msg (Too_many_devices name)], Skipped s1)
                         else
                           (let (tu, sb') = (case update of
                                               None \<Rightarrow> ([], sb)
                                             | Some upd \<Rightarrow> apply_update K E verbose upd name sb);
                                tv = (if verbose
                                      then [Msg (Identified_as_member name
                                                  (d_raid_disk (this_disk sb')))]
                                      else [])
                            in (t0 @ tu @ tv,
                                Committed
                                  (commit_device sb' (record_device name maj mnr sb') s1)))))
                | _ \<Rightarrow> (t0 @ [Msg (No_superblock_aborted name)], Fatal 1))))"

text \<open>The loop \<open>while (devlist)\<close> over the device names.\<close>

fun probe_loop ::
  "md_consts \<Rightarrow> env \<Rightarrow> mddev_ident \<Rightarrow> bool \<Rightarrow> bool \<Rightarrow> string option \<Rightarrow>
   pstate \<Rightarrow> string list \<Rightarrow> event list \<times> (int + pstate)" where
  "probe_loop K E ident inargv verbose update s [] = ([], Inr s)"
| "probe_loop K E ident inargv verbose update s (name # rest) =
     (case probe_one K E ident inargv verbose update s name of
        (t, Fatal rc) \<Rightarrow> (t, Inl rc)
      | (t, Skipped s') \<Rightarrow>
          (case probe_loop K E ident inargv verbose update s' rest of
             (t', r) \<Rightarrow> (t @ t', r))
      | (t, Committed s') \<Rightarrow>
          (case probe_loop K E ident inargv verbose update s' rest of
             (t', r) \<Rightarrow> (t @ t', r)))"

section \<open>Counting the devices that are recent enough (lines 393 to 419)\<close>

text \<open>
  The state of the rest of Assemble: what the probe loop left, the vector \<open>avail\<close>
  (\<open>malloc(first_super.raid_disks)\<close> bytes, so that many entries) and the two counters,
  which are \<open>unsigned int\<close>.
\<close>

record astate = pstate +
  avail :: "bool list"
  okcnt :: u32
  sparecnt :: u32

definition astate0 :: "pstate \<Rightarrow> mdp_super \<Rightarrow> astate" where
  "astate0 p fs =
     \<lparr>first_super = first_super p, devices = devices p, best = best p,
      most_recent = most_recent p,
      avail = replicate (unat (raid_disks fs)) False, okcnt = 0, sparecnt = 0\<rparr>"

text \<open>
  The sum of two \<open>long long\<close>: 64 bits, two's complement. A sum outside the range is
  undefined in C; it is written out here as the machine computes it, wrapping around.
\<close>

definition ll_add :: "int \<Rightarrow> int \<Rightarrow> int" where
  "ll_add a b = sint (word_of_int (a + b) :: 64 word)"

text \<open>
  The test of lines 410 and 411, with \<open>event_margin = !force\<close>: the margin is added to
  the event count, a \<open>long long\<close>, before the comparison.
\<close>

definition recent_enough :: "bool \<Rightarrow> astate \<Rightarrow> nat \<Rightarrow> bool" where
  "recent_enough force s j =
     (events (devices s ! most_recent s)
        \<le> ll_add (events (devices s ! j)) (if force then 0 else 1))"

text \<open>The body of the loop of line 397 for the slot \<open>i\<close>.\<close>

definition scan_step :: "md_consts \<Rightarrow> bool \<Rightarrow> mdp_super \<Rightarrow> astate \<Rightarrow> nat \<Rightarrow> astate" where
  "scan_step K force fs s i =
     (case best s ! i of
        None \<Rightarrow> s
      | Some j \<Rightarrow>
          if sint (level fs) \<noteq> - 4 \<and> state (devices s ! j) AND flag (MD_DISK_SYNC K) = 0
          then (if state (devices s ! j) AND flag (MD_DISK_FAULTY K) = 0
                then s\<lparr>sparecnt := sparecnt s + 1\<rparr> else s)
          else if recent_enough force s j
          then (let s1 = s\<lparr>devices := (devices s)[j := (devices s ! j)\<lparr>uptodate := True\<rparr>]\<rparr>
                in if i < unat (raid_disks fs)
                   then s1\<lparr>okcnt := okcnt s1 + 1, avail := (avail s1)[i := True]\<rparr>
                   else s1\<lparr>sparecnt := sparecnt s1 + 1\<rparr>)
          else s)"

definition avail_scan :: "md_consts \<Rightarrow> bool \<Rightarrow> mdp_super \<Rightarrow> pstate \<Rightarrow> astate" where
  "avail_scan K force fs p =
     foldl (scan_step K force fs) (astate0 p fs) [0 ..< length (best p)]"

section \<open>The force loop (lines 420 to 477)\<close>

text \<open>
  Lines 429 to 437: among the slots below \<open>raid_disks\<close> and \<open>bestcnt\<close>, the device that
  is not up to date, has a positive event count and more events than the one chosen
  so far.
\<close>

definition select_step :: "astate \<Rightarrow> nat option \<Rightarrow> nat \<Rightarrow> nat option" where
  "select_step s chosen i =
     (case best s ! i of
        None \<Rightarrow> chosen
      | Some j \<Rightarrow>
          if \<not> uptodate (devices s ! j) \<and> 0 < events (devices s ! j) \<and>
             (case chosen of
                None \<Rightarrow> True
              | Some c \<Rightarrow> events (devices s ! c) < events (devices s ! j))
          then Some j else chosen)"

definition select_stale :: "mdp_super \<Rightarrow> astate \<Rightarrow> nat option" where
  "select_stale fs s =
     foldl (select_step s) None [0 ..< min (unat (raid_disks fs)) (length (best s))]"

text \<open>
  One turn of the loop body. \<open>Break\<close> is the \<open>break\<close> of line 439, \<open>Failed\<close> one of the
  three \<open>continue\<close>s (the device's event count is zeroed), \<open>Rewritten\<close> the end of the
  body. Line 475 writes \<open>avail[chosen_drive]\<close>: an index from \<open>raid_disks\<close> on is outside
  the vector, and so is a \<open>chosen_drive\<close> that is no entry of \<open>devices\<close>.
\<close>

datatype force_result = Break | Failed astate | Rewritten astate | Out_of_bounds

definition force_step :: "md_consts \<Rightarrow> env \<Rightarrow> mdp_super \<Rightarrow> astate \<Rightarrow> event list \<times> force_result" where
  "force_step K E fs s =
     (case select_stale fs s of
        None \<Rightarrow> ([], Break)
      | Some c \<Rightarrow>
          if length (devices s) \<le> c then ([], Out_of_bounds)
          else
            (let dc = devices s ! c;
                 e = events (devices s ! most_recent s);
                 t0 = [Msg (Forcing_event_count (devname dc) (raid_disk dc)
                             (word_of_int (events dc)) (word_of_int e))];
                 zeroed = s\<lparr>devices := (devices s)[c := dc\<lparr>events := 0\<rparr>]\<rparr>
             in if \<not> force_open_ok E (devname dc)
                then (t0 @ [Msg (Force_could_not_open (devname dc))], Failed zeroed)
                else
                  (case force_load E (devname dc) of
                     None \<Rightarrow>
                       (t0 @ [Msg (Force_superblock_disappeared (devname dc))], Failed zeroed)
                   | Some sb \<Rightarrow>
                       (let sb1 = sb\<lparr>events_hi := word_of_int (e div 2 ^ 32),
                                      events_lo := word_of_int e\<rparr>;
                            sb2 = (if level sb1 = 5 \<or> level sb1 = 4
                                   then sb1\<lparr>sb_state := flag (MD_SB_CLEAN K)\<rparr> else sb1);
                            sb3 = sb2\<lparr>sb_csum := calc_sb_csum E sb2\<rparr>
                        in if \<not> force_store_ok E (devname dc)
                           then (t0 @ [Store_super (devname dc) sb3,
                                       Msg (Force_could_not_rewrite (devname dc))],
                                 Failed zeroed)
                           else if length (avail s) \<le> c
                           then (t0 @ [Store_super (devname dc) sb3], Out_of_bounds)
                           else
                             (t0 @ [Store_super (devname dc) sb3],
                              Rewritten
                                (s\<lparr>devices :=
                                      (devices s)[c := dc\<lparr>events := e, uptodate := True\<rparr>],
                                    avail := (avail s)[c := True],
                                    okcnt := okcnt s + 1\<rparr>))))))"

text \<open>The number of devices the force loop can still choose.\<close>

definition stale_count :: "astate \<Rightarrow> nat" where
  "stale_count s = length (filter (\<lambda>d. \<not> uptodate d \<and> 0 < events d) (devices s))"

text \<open>
  Every turn of the loop that goes on takes one device out of those it can choose:
  the chosen device was stale with a positive event count, and is left either with
  the event count 0 or up to date.
\<close>

lemma filter_update_less:
  "c < length xs \<Longrightarrow> P (xs ! c) \<Longrightarrow> \<not> P y \<Longrightarrow>
   length (filter P (xs[c := y])) < length (filter P xs)"
proof (induction xs arbitrary: c)
  case Nil
  then show ?case by simp
next
  case (Cons x xs)
  show ?case
  proof (cases c)
    case 0
    with Cons.prems show ?thesis by simp
  next
    case (Suc k)
    with Cons.prems Cons.IH [of k] show ?thesis by simp
  qed
qed

lemma select_fold_stale:
  "(case acc of None \<Rightarrow> True
    | Some c \<Rightarrow> \<not> uptodate (devices s ! c) \<and> 0 < events (devices s ! c)) \<Longrightarrow>
   foldl (select_step s) acc js = Some c \<Longrightarrow>
   \<not> uptodate (devices s ! c) \<and> 0 < events (devices s ! c)"
proof (induction js arbitrary: acc)
  case Nil
  then show ?case by simp
next
  case (Cons i js)
  show ?case
  proof (rule Cons.IH [of "select_step s acc i"])
    show "case select_step s acc i of None \<Rightarrow> True
          | Some c \<Rightarrow> \<not> uptodate (devices s ! c) \<and> 0 < events (devices s ! c)"
      using Cons.prems(1) by (auto simp: select_step_def split: option.splits)
    show "foldl (select_step s) (select_step s acc i) js = Some c"
      using Cons.prems(2) by simp
  qed
qed

lemma select_stale_stale:
  "select_stale fs s = Some c \<Longrightarrow> \<not> uptodate (devices s ! c) \<and> 0 < events (devices s ! c)"
  unfolding select_stale_def by (rule select_fold_stale [where acc = None]) simp_all

lemma force_step_Failed:
  assumes "force_step K E fs s = (t, Failed s')"
  shows "stale_count s' < stale_count s"
proof -
  from assms obtain c where c: "select_stale fs s = Some c" "c < length (devices s)"
    and s': "s' = s\<lparr>devices := (devices s)[c := (devices s ! c)\<lparr>events := 0\<rparr>]\<rparr>"
    by (auto simp: force_step_def Let_def split: option.splits if_splits)
  from select_stale_stale [OF c(1)] c(2) show ?thesis
    unfolding stale_count_def s' by (simp add: filter_update_less)
qed

lemma force_step_Rewritten:
  assumes "force_step K E fs s = (t, Rewritten s')"
  shows "stale_count s' < stale_count s"
proof -
  from assms obtain c where c: "select_stale fs s = Some c" "c < length (devices s)"
    and s': "devices s' = (devices s)[c := (devices s ! c)
               \<lparr>events := events (devices s ! most_recent s), uptodate := True\<rparr>]"
    by (auto simp: force_step_def Let_def split: option.splits if_splits)
  from select_stale_stale [OF c(1)] c(2) show ?thesis
    unfolding stale_count_def s' by (simp add: filter_update_less)
qed

text \<open>
  The loop \<open>while (force && !enough(...))\<close>. The result is the trace and the state
  after the loop, or \<open>None\<close> when a turn went outside an array.
\<close>

function force_loop ::
  "md_consts \<Rightarrow> env \<Rightarrow> bool \<Rightarrow> mdp_super \<Rightarrow> astate \<Rightarrow> event list \<times> astate option" where
  "force_loop K E force fs s =
     (if force \<and>
         \<not> enough E (level fs) (raid_disks fs) (layout fs) (avail s) (okcnt s)
      then
        (case force_step K E fs s of
           (t, Break) \<Rightarrow> (t, Some s)
         | (t, Failed s') \<Rightarrow>
             (case force_loop K E force fs s' of (t', r) \<Rightarrow> (t @ t', r))
         | (t, Rewritten s') \<Rightarrow>
             (case force_loop K E force fs s' of (t', r) \<Rightarrow> (t @ t', r))
         | (t, Out_of_bounds) \<Rightarrow> (t, None))
      else ([], Some s))"
  by pat_completeness auto
termination
  apply (relation "measure (\<lambda>(K, E, force, fs, s). stale_count s)")
    apply simp
   apply (simp_all add: force_step_Failed [OF sym] force_step_Rewritten [OF sym])
  done

section \<open>The chosen drive and the reconciler (lines 485 to 580)\<close>

text \<open>
  Lines 486 to 493: the device of the first slot of \<open>best\<close> that is up to date;
  \<open>None\<close> when \<open>chosen_drive\<close> stays \<open>-1\<close>.
\<close>

fun first_uptodate :: "device list \<Rightarrow> nat option list \<Rightarrow> nat option" where
  "first_uptodate devs [] = None"
| "first_uptodate devs (None # bs) = first_uptodate devs bs"
| "first_uptodate devs (Some j # bs) =
     (if uptodate (devs ! j) then Some j else first_uptodate devs bs)"

text \<open>
  Lines 494 to 505: the superblock of the chosen drive is loaded again into \<open>super\<close>;
  a failure ends Assemble with status 1. With no chosen drive \<open>super\<close> keeps what it
  held.
\<close>

definition choose_drive ::
  "env \<Rightarrow> astate \<Rightarrow> event list \<times> (int + nat option \<times> mdp_super)" where
  "choose_drive E s =
     (case first_uptodate (devices s) (best s) of
        None \<Rightarrow> ([], Inr (None, stale_super E))
      | Some j \<Rightarrow>
          (let name = devname (devices s ! j) in
           if \<not> chosen_open_ok E name then ([Msg (Chosen_cannot_open name)], Inl 1)
           else
             (case chosen_load E name of
                None \<Rightarrow> ([Msg (Chosen_superblock_disappeared name)], Inl 1)
              | Some sb \<Rightarrow> ([], Inr (Some j, sb)))))"

text \<open>
  The body of the loop of line 508 for the slot \<open>i\<close>, on the superblock \<open>sb\<close> and the
  flags \<open>change\<close>. The result is \<open>None\<close> when \<open>super.disks[i]\<close> is outside the array of
  \<open>MD_SB_DISKS\<close> descriptors. The block of lines 521 to 529 is compiled out; the test
  of line 550 is kept although line 519 has already left the body when it would hold.
\<close>

definition reconcile_step ::
  "md_consts \<Rightarrow> bool \<Rightarrow> device list \<Rightarrow> nat option list \<Rightarrow> nat \<Rightarrow> mdp_super \<Rightarrow> int \<Rightarrow>
   (event list \<times> mdp_super \<times> int) option" where
  "reconcile_step K force devs bst i sb change =
     (let desired_state =
            (if i < unat (raid_disks sb)
             then flag (MD_DISK_ACTIVE K) OR flag (MD_DISK_SYNC K) else 0)
      in case bst ! i of
           None \<Rightarrow> Some ([], sb, change)
         | Some j \<Rightarrow>
             if \<not> uptodate (devs ! j) then Some ([], sb, change)
             else if MD_SB_DISKS K \<le> i then None
             else
               (let dj = devs ! j;
                    d = disks sb ! i;
                    renumber = (oldmajor dj \<noteq> d_major d \<or> oldminor dj \<noteq> d_minor d);
                    change1 = (if renumber then change OR 2 else change);
                    d1 = (if renumber
                          then d\<lparr>d_major := oldmajor dj, d_minor := oldminor dj\<rparr> else d);
                    wrong = (uptodate dj \<and> d_state d1 \<noteq> desired_state);
                    d2 = (if wrong \<and> force then d1\<lparr>d_state := desired_state\<rparr> else d1);
                    change2 = (if wrong \<and> force then change1 OR 2 else change1);
                    t1 = (if wrong
                          then (if force then [Msg (Clearing_FAULTY j (devname dj))]
                                else [Msg (Wrong_state_in_superblock i (devname dj))])
                          else []);
                    t2 = (if \<not> uptodate dj \<and> d_state d2 AND flag (MD_DISK_FAULTY K) = 0
                          then [Msg (Not_marked_FAULTY i)] else [])
                in Some (t1 @ t2, sb\<lparr>disks := (disks sb)[i := d2]\<rparr>, change2)))"

fun reconcile_loop ::
  "md_consts \<Rightarrow> bool \<Rightarrow> device list \<Rightarrow> nat option list \<Rightarrow> nat list \<Rightarrow> mdp_super \<Rightarrow> int \<Rightarrow>
   (event list \<times> mdp_super \<times> int) option" where
  "reconcile_loop K force devs bst [] sb change = Some ([], sb, change)"
| "reconcile_loop K force devs bst (i # rest) sb change =
     (case reconcile_step K force devs bst i sb change of
        None \<Rightarrow> None
      | Some (t, sb', change') \<Rightarrow>
          (case reconcile_loop K force devs bst rest sb' change' of
             None \<Rightarrow> None
           | Some (t', r) \<Rightarrow> Some (t @ t', r)))"

text \<open>
  Lines 508 to 560: the loop over all slots, from \<open>change = 0\<close>, and then the forced
  clean state of a level 4 or 5 array that misses one drive.
\<close>

definition reconcile ::
  "md_consts \<Rightarrow> bool \<Rightarrow> astate \<Rightarrow> mdp_super \<Rightarrow> (event list \<times> mdp_super \<times> int) option" where
  "reconcile K force s sb =
     (case reconcile_loop K force (devices s) (best s) [0 ..< length (best s)] sb 0 of
        None \<Rightarrow> None
      | Some (t, sb1, change) \<Rightarrow>
          if force \<and> (level sb1 = 4 \<or> level sb1 = 5) \<and> okcnt s = raid_disks sb1 - 1
          then Some (t, sb1\<lparr>sb_state := flag (MD_SB_CLEAN K)\<rparr>, change OR 2)
          else Some (t, sb1, change))"

text \<open>
  Lines 562 to 580: the reconciled superblock goes back to the chosen drive. The result
  is \<open>None\<close> when Assemble goes on, \<open>Some (Return 1)\<close> when the write fails, and
  \<open>Some Undefined\<close> when the write is due with \<open>chosen_drive = -1\<close>.
\<close>

definition write_back ::
  "env \<Rightarrow> bool \<Rightarrow> bool \<Rightarrow> astate \<Rightarrow> nat option \<Rightarrow> mdp_super \<Rightarrow> int \<Rightarrow>
   event list \<times> outcome option" where
  "write_back E force old_linux s chosen_drive sb change =
     (if (force \<and> change AND 2 \<noteq> 0) \<or> (old_linux \<and> change AND 1 \<noteq> 0) then
        (let sb' = sb\<lparr>sb_csum := calc_sb_csum E sb\<rparr> in
         case chosen_drive of
           None \<Rightarrow> ([], Some Undefined)
         | Some c \<Rightarrow>
             (let name = devname (devices s ! c) in
              if \<not> writeback_open_ok E name
              then ([Msg (Writeback_cannot_open name)], Some (Return 1))
              else if \<not> writeback_store_ok E name
              then ([Store_super name sb', Msg (Writeback_could_not_rewrite name)],
                    Some (Return 1))
              else ([Store_super name sb'], None)))
      else ([], None))"

section \<open>Handing the array to the kernel (lines 585 to 683)\<close>

text \<open>Lines 585 to 590: the slots the reference superblock has active, in sync and not faulty.\<close>

definition req_cnt :: "md_consts \<Rightarrow> mdp_super \<Rightarrow> u32" where
  "req_cnt K fs =
     of_nat (length (filter
       (\<lambda>i. d_state (disks fs ! i) AND flag (MD_DISK_SYNC K) \<noteq> 0 \<and>
            d_state (disks fs ! i) AND flag (MD_DISK_ACTIVE K) \<noteq> 0 \<and>
            d_state (disks fs ! i) AND flag (MD_DISK_FAULTY K) = 0)
       [0 ..< MD_SB_DISKS K]))"

text \<open>
  The body of the loop of line 601 for \<open>i\<close> from 0 to \<open>bestcnt\<close> inclusive, on the
  counters \<open>okcnt\<close> and \<open>sparecnt\<close>.
\<close>

definition add_step ::
  "env \<Rightarrow> bool \<Rightarrow> mdp_super \<Rightarrow> device list \<Rightarrow> nat option list \<Rightarrow> nat option \<Rightarrow>
   event list \<times> u32 \<times> u32 \<Rightarrow> nat \<Rightarrow> event list \<times> u32 \<times> u32" where
  "add_step E verbose fs devs bst chosen_drive acc i =
     (case acc of (t, ok, sp) \<Rightarrow>
        if i < length bst \<and> bst ! i = chosen_drive then (t, ok, sp)
        else
          (case (if i < length bst then bst ! i else chosen_drive) of
             Some j \<Rightarrow>
               if \<not> ADD_NEW_DISK_ok E (major (devs ! j)) (minor (devs ! j))
               then
                 (t @ [Ioctl (ADD_NEW_DISK (major (devs ! j)) (minor (devs ! j))),
                       Msg (Failed_to_add (devname (devs ! j)))],
                  if i < unat (raid_disks fs) \<or> i = length bst then ok - 1 else ok,
                  if i < unat (raid_disks fs) \<or> i = length bst then sp else sp - 1)
               else
                 (t @ [Ioctl (ADD_NEW_DISK (major (devs ! j)) (minor (devs ! j)))]
                    @ (if verbose
                       then [Msg (Added (devname (devs ! j)) (raid_disk (devs ! j)))]
                       else []),
                  ok, sp)
           | None \<Rightarrow>
               (t @ (if verbose \<and> i < unat (raid_disks fs)
                     then [Msg (No_uptodate_device i)] else []),
                ok, sp)))"

definition add_disks ::
  "env \<Rightarrow> bool \<Rightarrow> mdp_super \<Rightarrow> astate \<Rightarrow> nat option \<Rightarrow> event list \<times> u32 \<times> u32" where
  "add_disks E verbose fs s chosen_drive =
     foldl (add_step E verbose fs (devices s) (best s) chosen_drive)
       ([], okcnt s, sparecnt s) [0 ..< Suc (length (best s))]"

text \<open>Lines 632 to 668: whether to start the array, and the exit status.\<close>

definition run_policy ::
  "md_consts \<Rightarrow> env \<Rightarrow> int \<Rightarrow> bool \<Rightarrow> mdp_super \<Rightarrow> bool list \<Rightarrow> u32 \<Rightarrow> u32 \<Rightarrow>
   event list \<times> outcome" where
  "run_policy K E runstop start_partial_ok fs av ok sp =
     (if runstop = 1 \<or>
         (runstop = 0 \<and>
          (enough E (level fs) (raid_disks fs) (layout fs) av ok \<and>
           (req_cnt K fs \<le> ok \<or> start_partial_ok)))
      then
        (if RUN_ARRAY_ok E
         then ([Ioctl RUN_ARRAY, Msg (Started ok (ok < raid_disks fs) sp)], Return 0)
         else ([Ioctl RUN_ARRAY, Msg Failed_to_RUN_ARRAY], Return 1))
      else if runstop = - 1 then ([Msg (Assembled_not_started ok)], Return 0)
      else
        ([Msg (if \<not> enough E (level fs) (raid_disks fs) (layout fs) av ok
               then Assembled_not_enough ok sp
               else if req_cnt K fs = raid_disks fs
               then Assembled_need_all ok sp (req_cnt K fs)
               else Assembled_need_some ok sp (req_cnt K fs) (raid_disks fs))],
         Return 1))"

text \<open>Lines 594 to 683: the plan for a 2.4 kernel, or the single START\_ARRAY before it.\<close>

definition execute ::
  "md_consts \<Rightarrow> env \<Rightarrow> bool \<Rightarrow> int \<Rightarrow> bool \<Rightarrow> bool \<Rightarrow> mdp_super \<Rightarrow> astate \<Rightarrow>
   nat option \<Rightarrow> event list \<times> outcome" where
  "execute K E old_linux runstop start_partial_ok verbose fs s chosen_drive =
     (if \<not> old_linux then
        (if \<not> SET_ARRAY_INFO_ok E
         then ([Ioctl SET_ARRAY_INFO, Msg SET_ARRAY_INFO_failed], Return 1)
         else
           (case add_disks E verbose fs s chosen_drive of
              (t, ok, sp) \<Rightarrow>
                (case run_policy K E runstop start_partial_ok fs (avail s) ok sp of
                   (t', r) \<Rightarrow> (Ioctl SET_ARRAY_INFO # t @ t', r))))
      else
        (case chosen_drive of
           None \<Rightarrow> ([], Undefined)
         | Some c \<Rightarrow>
             (Ioctl (START_ARRAY (major (devices s ! c)) (minor (devices s ! c)))
                # (if START_ARRAY_ok E then [] else [Msg Cannot_start_array]),
              Return 0)))"

section \<open>Assemble\<close>

text \<open>
  Lines 420 to 683, after the availability scan: the force loop, the chosen drive, the
  reconciler and the hand-over to the kernel.
\<close>

definition assemble_found ::
  "md_consts \<Rightarrow> env \<Rightarrow> bool \<Rightarrow> int \<Rightarrow> bool \<Rightarrow> bool \<Rightarrow> bool \<Rightarrow> mdp_super \<Rightarrow> astate \<Rightarrow>
   event list \<times> outcome" where
  "assemble_found K E old_linux runstop start_partial_ok verbose force fs s0 =
     (case force_loop K E force fs s0 of
        (t1, None) \<Rightarrow> (t1, Undefined)
      | (t1, Some s) \<Rightarrow>
          (case choose_drive E s of
             (t2, Inl rc) \<Rightarrow> (t1 @ t2, Return rc)
           | (t2, Inr (chosen_drive, sb)) \<Rightarrow>
               (case reconcile K force s sb of
                  None \<Rightarrow> (t1 @ t2, Undefined)
                | Some (t3, sb', change) \<Rightarrow>
                    (case write_back E force old_linux s chosen_drive sb' change of
                       (t4, Some r) \<Rightarrow> (t1 @ t2 @ t3 @ t4, r)
                     | (t4, None) \<Rightarrow>
                         (case execute K E old_linux runstop start_partial_ok verbose
                                 fs s chosen_drive of
                            (t5, r) \<Rightarrow> (t1 @ t2 @ t3 @ t4 @ t5, r))))))"

text \<open>
  The whole function. \<open>devlist = []\<close> is the NULL list; the array handle \<open>mdfd\<close> and what
  the system answers are in the environment; \<open>mddev\<close> only appears in diagnostics.
\<close>

definition Assemble ::
  "md_consts \<Rightarrow> env \<Rightarrow> mddev_ident \<Rightarrow> string \<Rightarrow> string list \<Rightarrow> bool \<Rightarrow> int \<Rightarrow>
   string option \<Rightarrow> bool \<Rightarrow> bool \<Rightarrow> event list \<times> outcome" where
  "Assemble K E ident conffile devlist readonly runstop update verbose force =
     (let old_linux = (get_linux_version E < 2004000);
          start_partial_ok = (force \<or> devlist = [])
      in
      if md_get_version E \<le> 0 then ([Msg Not_an_md_device], Return 1)
      else if md_get_version E < 9000 then ([Msg Driver_too_old], Return 1)
      else if GET_ARRAY_INFO_ok E
      then ([Ioctl GET_ARRAY_INFO, Msg Already_active], Return 1)
      else if devlist = [] \<and> \<not> ident_uuid_set ident \<and> ident_super_minor ident < 0 \<and>
              ident_devices ident = None
      then ([Ioctl GET_ARRAY_INFO, Ioctl STOP_ARRAY, Msg No_identity_information], Return 1)
      else
        (let inargv = (devlist \<noteq> []);
             devlist' = (if devlist = [] then conf_get_devs E conffile else devlist);
             t0 = [Ioctl GET_ARRAY_INFO, Ioctl STOP_ARRAY]
                    @ (if verbose then [Msg Looking_for_devices] else [])
         in case probe_loop K E ident inargv verbose update pstate0 devlist' of
              (t1, Inl rc) \<Rightarrow> (t0 @ t1, Return rc)
            | (t1, Inr p) \<Rightarrow>
                if devices p = [] then (t0 @ t1 @ [Msg No_devices_found], Return 1)
                else
                  (case first_super p of
                     None \<Rightarrow> (t0 @ t1, Undefined)
                   | Some fs \<Rightarrow>
                       (case assemble_found K E old_linux runstop start_partial_ok verbose
                               force fs (avail_scan K force fs p) of
                          (t2, r) \<Rightarrow> (t0 @ t1 @ t2, r)))))"

section \<open>The slots after the probe loop\<close>

text \<open>
  The invariant of \<open>best\<close>, for \<open>n\<close> devices of which the \<open>k\<close>-th claims the slot
  \<open>key k\<close> and has \<open>ev k\<close> events: a claimed slot is inside \<open>best\<close> and taken; the device
  in a slot claims it, and every other device that claims it has fewer events, or as
  many and came later.
\<close>

definition slot_ok :: "nat \<Rightarrow> (nat \<Rightarrow> nat option) \<Rightarrow> (nat \<Rightarrow> int) \<Rightarrow> nat option list \<Rightarrow> bool" where
  "slot_ok n key ev bst \<longleftrightarrow>
     (\<forall>k<n. \<forall>i. key k = Some i \<longrightarrow> i < length bst \<and> bst ! i \<noteq> None) \<and>
     (\<forall>i<length bst. \<forall>j. bst ! i = Some j \<longrightarrow>
        j < n \<and> key j = Some i \<and>
        (\<forall>k<n. key k = Some i \<longrightarrow> ev k < ev j \<or> (ev k = ev j \<and> j \<le> k)))"

lemma grow_best_length: "i < length (grow_best b i)" "length b \<le> length (grow_best b i)"
  by (auto simp: grow_best_def)

lemma grow_best_Some: "i' < length (grow_best b i) \<Longrightarrow> grow_best b i ! i' = Some j \<Longrightarrow> i' < length b \<and> b ! i' = Some j"
  by (auto simp: grow_best_def nth_append split: if_splits)

lemma grow_best_old: "i' < length b \<Longrightarrow> grow_best b i ! i' = b ! i'"
  by (auto simp: grow_best_def nth_append)

lemma slot_okI:
  assumes "\<And>k i. k < n \<Longrightarrow> key k = Some i \<Longrightarrow> i < length bst \<and> bst ! i \<noteq> None"
    and "\<And>i j. i < length bst \<Longrightarrow> bst ! i = Some j \<Longrightarrow> j < n \<and> key j = Some i"
    and "\<And>i j k. i < length bst \<Longrightarrow> bst ! i = Some j \<Longrightarrow> k < n \<Longrightarrow> key k = Some i \<Longrightarrow>
           ev k < ev j \<or> (ev k = ev j \<and> j \<le> k)"
  shows "slot_ok n key ev bst"
  unfolding slot_ok_def using assms by blast

lemma slot_okD1: "slot_ok n key ev bst \<Longrightarrow> k < n \<Longrightarrow> key k = Some i \<Longrightarrow> i < length bst \<and> bst ! i \<noteq> None"
  unfolding slot_ok_def by blast

lemma slot_okD2: "slot_ok n key ev bst \<Longrightarrow> i < length bst \<Longrightarrow> bst ! i = Some j \<Longrightarrow> j < n \<and> key j = Some i"
  unfolding slot_ok_def by blast

lemma slot_okD3: "slot_ok n key ev bst \<Longrightarrow> i < length bst \<Longrightarrow> bst ! i = Some j \<Longrightarrow> k < n \<Longrightarrow> key k = Some i \<Longrightarrow>
           ev k < ev j \<or> (ev k = ev j \<and> j \<le> k)"
  unfolding slot_ok_def by blast

lemma slot_ok_None:
  assumes ok: "slot_ok n key ev bst" and kn: "key n = None"
  shows "slot_ok (Suc n) key ev bst"
proof (rule slot_okI)
  fix k i assume "k < Suc n" "key k = Some i"
  with kn have "k < n" by (cases "k = n") auto
  then show "i < length bst \<and> bst ! i \<noteq> None"
    using \<open>key k = Some i\<close> by (rule slot_okD1 [OF ok])
next
  fix i j assume "i < length bst" "bst ! i = Some j"
  then have "j < n \<and> key j = Some i" by (rule slot_okD2 [OF ok])
  then show "j < Suc n \<and> key j = Some i" by simp
next
  fix i j k assume ij: "i < length bst" "bst ! i = Some j" and k: "k < Suc n" "key k = Some i"
  with kn have "k < n" by (cases "k = n") auto
  from slot_okD3 [OF ok ij this k(2)] show "ev k < ev j \<or> (ev k = ev j \<and> j \<le> k)" .
qed

lemma slot_ok_Some:
  assumes ok: "slot_ok n key ev bst" and kn: "key n = Some i0"
    and b: "b = grow_best bst i0"
    and repl: "repl \<longleftrightarrow> (case b ! i0 of None \<Rightarrow> True | Some k \<Rightarrow> ev k < ev n)"
    and bst': "bst' = (if repl then b[i0 := Some n] else b)"
  shows "slot_ok (Suc n) key ev bst'"
proof (rule slot_okI)
  have i0: "i0 < length b" and bl: "length bst \<le> length b"
    by (simp_all add: b grow_best_length)
  have bS: "\<And>i j. i < length b \<Longrightarrow> b ! i = Some j \<Longrightarrow> i < length bst \<and> bst ! i = Some j"
    unfolding b by (rule grow_best_Some)
  have bO: "\<And>i. i < length bst \<Longrightarrow> b ! i = bst ! i"
    unfolding b by (rule grow_best_old)
  have lb': "length bst' = length b" by (simp add: bst')
  {
    fix k i assume k: "k < Suc n" "key k = Some i"
    show "i < length bst' \<and> bst' ! i \<noteq> None"
    proof (cases "k = n")
      case True
      with k kn have "i = i0" by simp
      then show ?thesis using i0 by (auto simp: bst' repl split: option.splits)
    next
      case False
      with k have "k < n" by simp
      from slot_okD1 [OF ok this k(2)] have "i < length bst" "bst ! i \<noteq> None" by auto
      moreover from this bl have "i < length b" by simp
      ultimately show ?thesis using bO [of i] i0 by (auto simp: bst' nth_list_update)
    qed
  }
  {
    fix i j assume ij: "i < length bst'" "bst' ! i = Some j"
    show "j < Suc n \<and> key j = Some i"
    proof (cases "repl \<and> i = i0")
      case True
      with ij i0 have "j = n" by (simp add: bst')
      with True kn show ?thesis by simp
    next
      case False
      with ij have bi: "i < length b" "b ! i = Some j"
        by (auto simp: bst' nth_list_update split: if_splits)
      from bS [OF bi] have o: "i < length bst" "bst ! i = Some j" by auto
      from slot_okD2 [OF ok o] show ?thesis by simp
    qed
  }
  {
    fix i j k assume ij: "i < length bst'" "bst' ! i = Some j" and k: "k < Suc n" "key k = Some i"
    show "ev k < ev j \<or> (ev k = ev j \<and> j \<le> k)"
    proof (cases "repl \<and> i = i0")
      case True
      with ij i0 have j: "j = n" by (simp add: bst')
      show ?thesis
      proof (cases "k = n")
        case True
        with j show ?thesis by simp
      next
        case False
        with k have kn': "k < n" by simp
        from True k have ki0: "key k = Some i0" by simp
        from slot_okD1 [OF ok kn' ki0] obtain k0 where k0: "i0 < length bst" "bst ! i0 = Some k0" by auto
        with bO have "b ! i0 = Some k0" by simp
        with True have lt: "ev k0 < ev n" by (simp add: repl)
        from slot_okD3 [OF ok k0 kn' ki0] have "ev k \<le> ev k0" by auto
        with lt j show ?thesis by simp
      qed
    next
      case False
      with ij have bi: "i < length b" "b ! i = Some j"
        by (auto simp: bst' nth_list_update split: if_splits)
      from bS [OF bi] have o: "i < length bst" "bst ! i = Some j" by auto
      show ?thesis
      proof (cases "k = n")
        case True
        with k kn have "i = i0" by simp
        with False have "\<not> repl" by simp
        moreover from bi \<open>i = i0\<close> have "b ! i0 = Some j" by simp
        ultimately have "ev n \<le> ev j" by (simp add: repl)
        moreover from slot_okD2 [OF ok o] have "j < n" by simp
        ultimately show ?thesis using True by auto
      next
        case False
        with k have "k < n" by simp
        from slot_okD3 [OF ok o this k(2)] show ?thesis .
      qed
    qed
  }
qed


lemma slot_ok_cong:
  assumes "slot_ok n key ev bst" and "\<And>k. k < n \<Longrightarrow> key' k = key k \<and> ev' k = ev k"
  shows "slot_ok n key' ev' bst"
proof (rule slot_okI)
  fix k i assume "k < n" "key' k = Some i"
  with assms(2) have "key k = Some i" by simp
  from slot_okD1 [OF assms(1) \<open>k < n\<close> this] show "i < length bst \<and> bst ! i \<noteq> None" .
next
  fix i j assume ij: "i < length bst" "bst ! i = Some j"
  from slot_okD2 [OF assms(1) ij] assms(2) show "j < n \<and> key' j = Some i" by simp
next
  fix i j k assume ij: "i < length bst" "bst ! i = Some j" and k: "k < n" "key' k = Some i"
  from k assms(2) have "key k = Some i" by simp
  from slot_okD3 [OF assms(1) ij k(1) this] slot_okD2 [OF assms(1) ij] assms(2) k(1)
  show "ev' k < ev' j \<or> (ev' k = ev' j \<and> j \<le> k)" by simp
qed

lemma commit_device_devices: "devices (commit_device sb dev s) = devices s @ [dev]"
  by (simp add: commit_device_def Let_def)

lemma commit_device_first_super: "first_super (commit_device sb dev s) = first_super s"
  by (simp add: commit_device_def Let_def)

lemma commit_device_best:
  "best (commit_device sb dev s) =
     (case slot_key (level sb) dev (length (devices s)) of
        None \<Rightarrow> best s
      | Some i \<Rightarrow>
          if (case grow_best (best s) i ! i of
                None \<Rightarrow> True
              | Some k \<Rightarrow> events ((devices s @ [dev]) ! k) < events dev)
          then (grow_best (best s) i)[i := Some (length (devices s))]
          else grow_best (best s) i)"
  by (simp add: commit_device_def Let_def split: option.splits)

lemma slot_ok_commit:
  assumes ok: "slot_ok (length (devices s)) key (\<lambda>k. events (devices s ! k)) (best s)"
    and key: "key (length (devices s)) = slot_key (level sb) dev (length (devices s))"
  shows "slot_ok (length (devices (commit_device sb dev s))) key
           (\<lambda>k. events (devices (commit_device sb dev s) ! k)) (best (commit_device sb dev s))"
proof -
  let ?n = "length (devices s)"
  let ?ev = "\<lambda>k. events ((devices s @ [dev]) ! k)"
  have ok': "slot_ok ?n key ?ev (best s)"
    by (rule slot_ok_cong [OF ok]) (simp add: nth_append)
  have "slot_ok (Suc ?n) key ?ev (best (commit_device sb dev s))"
  proof (cases "slot_key (level sb) dev ?n")
    case None
    with key have "key ?n = None" by simp
    from slot_ok_None [OF ok' this] None show ?thesis by (simp add: commit_device_best)
  next
    case (Some i0)
    with key have k: "key ?n = Some i0" by simp
    have "slot_ok (Suc ?n) key ?ev
            (if (case grow_best (best s) i0 ! i0 of None \<Rightarrow> True | Some k \<Rightarrow> ?ev k < events dev)
             then (grow_best (best s) i0)[i0 := Some ?n] else grow_best (best s) i0)"
      by (rule slot_ok_Some [OF ok' k refl _ refl]) (simp split: option.splits)
    then show ?thesis using Some by (simp add: commit_device_best)
  qed
  then show ?thesis by (simp add: commit_device_devices)
qed

definition slot_inv :: "u32 \<Rightarrow> device list \<Rightarrow> nat option list \<Rightarrow> bool" where
  "slot_inv lvl devs bst \<longleftrightarrow>
     slot_ok (length devs) (\<lambda>k. slot_key lvl (devs ! k) k) (\<lambda>k. events (devs ! k)) bst"

lemma probe_one_Committed:
  assumes "probe_one K E ident inargv verbose update s name = (t, Committed s')"
  obtains maj mnr sb fs sb' where
    "probe E name = Loaded maj mnr sb"
    "compare_super (first_super s) sb = (False, fs)"
    "length (devices s) < MD_SB_DISKS K"
    "sb' = (case update of None \<Rightarrow> sb | Some upd \<Rightarrow> snd (apply_update K E verbose upd name sb))"
    "s' = commit_device sb' (record_device name maj mnr sb') (s\<lparr>first_super := fs\<rparr>)"
  using assms unfolding probe_one_def Let_def
  by (auto split: if_splits option.splits probe_result.splits prod.splits bool.splits)

lemma probe_one_Skipped:
  assumes "probe_one K E ident inargv verbose update s name = (t, Skipped s')"
  shows "devices s' = devices s \<and> best s' = best s \<and> most_recent s' = most_recent s \<and>
         (first_super s' = first_super s \<or>
          (\<exists>maj mnr sb. probe E name = Loaded maj mnr sb \<and>
             compare_super (first_super s) sb = (False, first_super s')))"
  using assms unfolding probe_one_def Let_def
  by (auto split: if_splits option.splits probe_result.splits prod.splits bool.splits)

lemma probe_loop_invariant:
  assumes "probe_loop K E ident inargv verbose update s names = (t, Inr p)"
    and "P s"
    and "\<And>s name t s'. P s \<Longrightarrow>
           probe_one K E ident inargv verbose update s name = (t, Skipped s') \<Longrightarrow> P s'"
    and "\<And>s name t s'. P s \<Longrightarrow>
           probe_one K E ident inargv verbose update s name = (t, Committed s') \<Longrightarrow> P s'"
  shows "P p"
  using assms(1,2)
proof (induction names arbitrary: s t)
  case Nil
  then show ?case by simp
next
  case (Cons name names)
  obtain t1 r where one: "probe_one K E ident inargv verbose update s name = (t1, r)"
    by (cases "probe_one K E ident inargv verbose update s name")
  show ?case
  proof (cases r)
    case (Fatal rc)
    with Cons.prems one show ?thesis by simp
  next
    case (Skipped s')
    with Cons.prems(2) one have P: "P s'" by (auto intro: assms(3))
    obtain t2 r2 where "probe_loop K E ident inargv verbose update s' names = (t2, r2)"
      by (cases "probe_loop K E ident inargv verbose update s' names")
    with Cons.prems(1) one Skipped have "probe_loop K E ident inargv verbose update s' names = (t2, Inr p)"
      by simp
    from Cons.IH [OF this P] show ?thesis .
  next
    case (Committed s')
    with Cons.prems(2) one have P: "P s'" by (auto intro: assms(4))
    obtain t2 r2 where "probe_loop K E ident inargv verbose update s' names = (t2, r2)"
      by (cases "probe_loop K E ident inargv verbose update s' names")
    with Cons.prems(1) one Committed have "probe_loop K E ident inargv verbose update s' names = (t2, Inr p)"
      by simp
    from Cons.IH [OF this P] show ?thesis .
  qed
qed

lemma compare_super_level:
  "compare_super fo sb = (False, fo') \<Longrightarrow>
   \<exists>f. fo' = Some f \<and> level f = level sb \<and> (fo = None \<or> fo = Some f)"
  by (auto simp: compare_super_def split: option.splits)

lemma summaries_step_level: "level (summaries_step K sb i) = level sb"
  by (simp add: summaries_step_def Let_def)

lemma foldl_summaries_level: "level (foldl (summaries_step K) sb xs) = level sb"
  by (induction xs arbitrary: sb) (simp_all add: summaries_step_level)

lemma apply_update_level:
  "\<forall>sb. level (sparc22_shift E sb) = level sb \<Longrightarrow>
   level (snd (apply_update K E verbose upd name sb)) = level sb"
  by (simp add: apply_update_def Let_def update_summaries_def foldl_summaries_level)


definition probe_inv :: "pstate \<Rightarrow> bool" where
  "probe_inv s \<longleftrightarrow>
     (case first_super s of
        None \<Rightarrow> devices s = [] \<and> best s = []
      | Some f \<Rightarrow> slot_inv (level f) (devices s) (best s))"

lemma slot_inv_Nil: "slot_inv lvl [] []"
  by (simp add: slot_inv_def slot_ok_def)

lemma probe_inv_Skipped:
  assumes "probe_inv s"
    and "probe_one K E ident inargv verbose update s name = (t, Skipped s')"
  shows "probe_inv s'"
proof -
  from probe_one_Skipped [OF assms(2)]
  have same: "devices s' = devices s" "best s' = best s"
    and fs: "first_super s' = first_super s \<or>
          (\<exists>maj mnr sb. probe E name = Loaded maj mnr sb \<and>
             compare_super (first_super s) sb = (False, first_super s'))"
    by auto
  from fs show ?thesis
  proof
    assume "first_super s' = first_super s"
    with assms(1) same show ?thesis by (simp add: probe_inv_def split: option.splits)
  next
    assume "\<exists>maj mnr sb. probe E name = Loaded maj mnr sb \<and>
             compare_super (first_super s) sb = (False, first_super s')"
    then obtain sb where "compare_super (first_super s) sb = (False, first_super s')" by blast
    from compare_super_level [OF this] obtain f where
      f: "first_super s' = Some f" "first_super s = None \<or> first_super s = Some f" by blast
    from f(2) show ?thesis
    proof
      assume "first_super s = None"
      with assms(1) same f(1) show ?thesis by (simp add: probe_inv_def slot_inv_Nil)
    next
      assume "first_super s = Some f"
      with assms(1) same f(1) show ?thesis by (simp add: probe_inv_def)
    qed
  qed
qed

lemma probe_inv_Committed:
  assumes sparc: "\<forall>sb. level (sparc22_shift E sb) = level sb"
    and inv: "probe_inv s"
    and one: "probe_one K E ident inargv verbose update s name = (t, Committed s')"
  shows "probe_inv s'"
proof -
  from one obtain maj mnr sb fs sb' where
    cmp: "compare_super (first_super s) sb = (False, fs)"
    and sb': "sb' = (case update of None \<Rightarrow> sb
                     | Some upd \<Rightarrow> snd (apply_update K E verbose upd name sb))"
    and s': "s' = commit_device sb' (record_device name maj mnr sb') (s\<lparr>first_super := fs\<rparr>)"
    by (rule probe_one_Committed)
  from compare_super_level [OF cmp] obtain f where
    f: "fs = Some f" "level f = level sb" "first_super s = None \<or> first_super s = Some f"
    by blast
  have lvl: "level sb' = level f"
    using sb' f(2) apply_update_level [OF sparc] by (simp split: option.splits)
  define dev where "dev = record_device name maj mnr sb'"
  define s1 where "s1 = s\<lparr>first_super := fs\<rparr>"
  let ?key = "\<lambda>k. slot_key (level f) ((devices s1 @ [dev]) ! k) k"
  have "slot_inv (level f) (devices s) (best s)"
    using f(3) inv by (auto simp: probe_inv_def slot_inv_Nil)
  then have "slot_ok (length (devices s1)) (\<lambda>k. slot_key (level f) (devices s1 ! k) k)
               (\<lambda>k. events (devices s1 ! k)) (best s1)"
    by (simp add: slot_inv_def s1_def)
  then have ok: "slot_ok (length (devices s1)) ?key (\<lambda>k. events (devices s1 ! k)) (best s1)"
    by (rule slot_ok_cong) (simp add: nth_append)
  have "slot_ok (length (devices (commit_device sb' dev s1))) ?key
           (\<lambda>k. events (devices (commit_device sb' dev s1) ! k)) (best (commit_device sb' dev s1))"
    by (rule slot_ok_commit [OF ok]) (simp add: lvl)
  then have "slot_inv (level f) (devices s') (best s')"
    unfolding slot_inv_def s' dev_def [symmetric] s1_def [symmetric]
    by (simp add: commit_device_devices)
  moreover have "first_super s' = Some f"
    by (simp add: s' commit_device_first_super f(1))
  ultimately show ?thesis by (simp add: probe_inv_def)
qed

lemma probe_loop_slot_inv:
  assumes "probe_loop K E ident inargv verbose update pstate0 names = (t, Inr p)"
    and "first_super p = Some fs"
    and "\<forall>sb. level (sparc22_shift E sb) = level sb"
  shows "slot_inv (level fs) (devices p) (best p)"
proof -
  have "probe_inv pstate0" by (simp add: probe_inv_def pstate0_def)
  with assms(1) have "probe_inv p"
    by (rule probe_loop_invariant) (blast intro: probe_inv_Skipped probe_inv_Committed [OF assms(3)])+
  with assms(2) show ?thesis by (simp add: probe_inv_def)
qed


section \<open>Test data\<close>

text \<open>
  The constants as md\_p.h and mdadm.h of this release give them, and a three-disk
  RAID-5 array: the superblock of member \<open>i\<close> with the event count \<open>ev\<close>.
\<close>

definition K0 :: md_consts where
  "K0 = \<lparr>MD_SB_DISKS = 27, MD_DISK_FAULTY = 0, MD_DISK_ACTIVE = 1, MD_DISK_SYNC = 2,
         MD_DISK_REMOVED = 3, MD_SB_CLEAN = 0, UnSet = 65534\<rparr>"

definition disk0 :: "nat \<Rightarrow> mdp_disk" where
  "disk0 i = \<lparr>d_number = of_nat i, d_major = 8, d_minor = of_nat (16 * i),
              d_raid_disk = of_nat i, d_state = 6\<rparr>"

definition no_disk :: mdp_disk where
  "no_disk = \<lparr>d_number = 0, d_major = 0, d_minor = 0, d_raid_disk = 0, d_state = 0\<rparr>"

definition member :: "nat \<Rightarrow> u32 \<Rightarrow> mdp_super" where
  "member i ev =
     \<lparr>md_magic = 0xa92b4efc, set_uuid = 1, ctime = 0, level = 5, sb_size = 1024,
      nr_disks = 3, raid_disks = 3, md_minor = 0, sb_utime = 0, sb_state = 1,
      active_disks = 3, working_disks = 3, failed_disks = 0, spare_disks = 0,
      sb_csum = 0, events_hi = 0, events_lo = ev, recovery_cp = 0, layout = 2,
      chunk_size = 64,
      disks = [disk0 0, disk0 1, disk0 2] @ replicate 24 no_disk,
      this_disk = disk0 i\<rparr>"

text \<open>An identity with no field given, as for \<open>mdadm -A /dev/md0 /dev/sda ...\<close>.\<close>

definition ident0 :: mddev_ident where
  "ident0 = \<lparr>ident_uuid_set = False, ident_uuid = 0, ident_super_minor = 65534,
             ident_level = 65534, ident_raid_disks = 65534, ident_devices = None\<rparr>"

text \<open>
  \<open>enough\<close> of util.c for the levels of the test data: all drives for level 0, one for
  level 1, all but one for levels 4 and 5.
\<close>

definition enough0 :: "u32 \<Rightarrow> u32 \<Rightarrow> u32 \<Rightarrow> bool list \<Rightarrow> u32 \<Rightarrow> bool" where
  "enough0 lvl rd lay av ok =
     (if lvl = 4 \<or> lvl = 5 then rd - 1 \<le> ok else if lvl = 1 then 1 \<le> ok else ok = rd)"

text \<open>
  An environment on a 2.4 kernel in which every call succeeds; \<open>sbs\<close> gives the
  superblock on each device path, every device has the device numbers its superblock
  records for it, and the later loads of a superblock give the same one. \<open>probed\<close> is
  the entry of \<open>devices\<close> for such a device.
\<close>

definition probed :: "string \<Rightarrow> mdp_super \<Rightarrow> device" where
  "probed name sb = record_device name (d_major (this_disk sb)) (d_minor (this_disk sb)) sb"

definition env0 :: "(string \<Rightarrow> mdp_super option) \<Rightarrow> env" where
  "env0 sbs =
     \<lparr>md_get_version = 9000, get_linux_version = 2004020, GET_ARRAY_INFO_ok = False,
      conf_get_devs = (\<lambda>c. []), match_oneof = (\<lambda>pat name. True),
      probe = (\<lambda>name. case sbs name of
                        None \<Rightarrow> Load_failed
                      | Some sb \<Rightarrow> Loaded (d_major (this_disk sb)) (d_minor (this_disk sb)) sb),
      mdfd_minor = 0, sparc22_shift = (\<lambda>sb. sb), calc_sb_csum = (\<lambda>sb. 0),
      update_open_ok = (\<lambda>name. True), update_store_ok = (\<lambda>name. True),
      enough = enough0,
      force_open_ok = (\<lambda>name. True), force_load = sbs, force_store_ok = (\<lambda>name. True),
      chosen_open_ok = (\<lambda>name. True), chosen_load = sbs, stale_super = member 0 0,
      writeback_open_ok = (\<lambda>name. True), writeback_store_ok = (\<lambda>name. True),
      SET_ARRAY_INFO_ok = True, ADD_NEW_DISK_ok = (\<lambda>maj mnr. True),
      RUN_ARRAY_ok = True, START_ARRAY_ok = True\<rparr>"

section \<open>The slot map after the probe loop\<close>

text \<open>
  Four devices: \<open>a\<close> in slot 0 with 10 events, and \<open>b\<close>, \<open>c\<close>, \<open>d\<close> all in slot 1 with
  9, 12 and 12 events; \<open>p8\<close> is the state the probe loop reaches on them.
\<close>

definition sbs8 :: "string \<Rightarrow> mdp_super option" where
  "sbs8 name =
     (if name = ''a'' then Some (member 0 10)
      else if name = ''b'' then Some (member 1 9)
      else if name = ''c'' then Some (member 1 12)
      else if name = ''d'' then Some (member 1 12)
      else None)"

definition p8 :: pstate where
  "p8 = \<lparr>first_super = Some (member 0 10),
          devices = [probed ''a'' (member 0 10), probed ''b'' (member 1 9),
                     probed ''c'' (member 1 12), probed ''d'' (member 1 12)],
          best = [Some 0, Some 2, None, None, None, None, None, None, None, None],
          most_recent = 2\<rparr>"

text \<open>
  C8: after the probe loop every entry of \<open>best\<close> holds the committed device with the
  most events among those that claim the slot, the earliest of them on a tie, and a
  slot no device claims is empty (or beyond \<open>bestcnt\<close>). The slot a device claims is
  its arrival index for a multipath array (level -4) and its \<open>raid_disk\<close> otherwise,
  and none from 10000 on. The level is that of the reference superblock, which all
  committed superblocks share; the \<open>sparc2.2\<close> shift starts behind the constant words
  and leaves it alone.
\<close>

theorem slot_map_holds_newest:
  assumes loop: "probe_loop K E ident inargv verbose update pstate0 names = (t, Inr p)"
    and ref: "first_super p = Some fs"
    and sparc: "\<forall>sb. level (sparc22_shift E sb) = level sb"
  shows "(\<forall>i. case (if i < length (best p) then best p ! i else None) of
              None \<Rightarrow> (\<forall>k<length (devices p). slot_key (level fs) (devices p ! k) k \<noteq> Some i)
            | Some j \<Rightarrow>
                j < length (devices p) \<and> slot_key (level fs) (devices p ! j) j = Some i \<and>
                (\<forall>k<length (devices p).
                   slot_key (level fs) (devices p ! k) k = Some i \<longrightarrow>
                   events (devices p ! k) \<le> events (devices p ! j) \<and>
                   (events (devices p ! k) = events (devices p ! j) \<longrightarrow> j \<le> k))) \<and>
         (\<forall>k<length (devices p).
            slot_key (level fs) (devices p ! k) k =
              (if sint (level fs) = - 4 then (if k < 10000 then Some k else None)
               else if unat (raid_disk (devices p ! k)) < 10000
               then Some (unat (raid_disk (devices p ! k))) else None))"
proof (rule conjI)
  let ?key = "\<lambda>k. slot_key (level fs) (devices p ! k) k"
  let ?ev = "\<lambda>k. events (devices p ! k)"
  from probe_loop_slot_inv [OF loop ref sparc]
  have ok: "slot_ok (length (devices p)) ?key ?ev (best p)"
    by (simp add: slot_inv_def)
  show "\<forall>i. case (if i < length (best p) then best p ! i else None) of
          None \<Rightarrow> (\<forall>k<length (devices p). ?key k \<noteq> Some i)
        | Some j \<Rightarrow>
            j < length (devices p) \<and> ?key j = Some i \<and>
            (\<forall>k<length (devices p). ?key k = Some i \<longrightarrow>
               ?ev k \<le> ?ev j \<and> (?ev k = ?ev j \<longrightarrow> j \<le> k))"
  proof
    fix i
    show "case (if i < length (best p) then best p ! i else None) of
            None \<Rightarrow> (\<forall>k<length (devices p). ?key k \<noteq> Some i)
          | Some j \<Rightarrow>
              j < length (devices p) \<and> ?key j = Some i \<and>
              (\<forall>k<length (devices p). ?key k = Some i \<longrightarrow>
                 ?ev k \<le> ?ev j \<and> (?ev k = ?ev j \<longrightarrow> j \<le> k))"
    proof (cases "if i < length (best p) then best p ! i else None")
      case None
      have "\<And>k. k < length (devices p) \<Longrightarrow> ?key k \<noteq> Some i"
      proof
        fix k assume "k < length (devices p)" "?key k = Some i"
        from slot_okD1 [OF ok this] None show False by (simp split: if_splits)
      qed
      with None show ?thesis by simp
    next
      case (Some j)
      then have ij: "i < length (best p)" "best p ! i = Some j"
        by (simp_all split: if_splits)
      have "\<And>k. k < length (devices p) \<Longrightarrow> ?key k = Some i \<Longrightarrow>
              ?ev k \<le> ?ev j \<and> (?ev k = ?ev j \<longrightarrow> j \<le> k)"
      proof -
        fix k assume "k < length (devices p)" "?key k = Some i"
        from slot_okD3 [OF ok ij this]
        show "?ev k \<le> ?ev j \<and> (?ev k = ?ev j \<longrightarrow> j \<le> k)"
          by auto
      qed
      with slot_okD2 [OF ok ij] Some show ?thesis by simp
    qed
  qed
next
  show "\<forall>k<length (devices p).
            slot_key (level fs) (devices p ! k) k =
              (if sint (level fs) = - 4 then (if k < 10000 then Some k else None)
               else if unat (raid_disk (devices p ! k)) < 10000
               then Some (unat (raid_disk (devices p ! k))) else None)"
    by (simp add: slot_key_def Let_def)
qed

theorem slot_map_holds_newest_witness:
  "probe_loop K0 (env0 sbs8) ident0 True False None pstate0 [''a'', ''b'', ''c'', ''d'']
     = ([], Inr p8) \<and>
   map events (devices p8) = [10, 9, 12, 12] \<and>
   map (\<lambda>d. unat (raid_disk d)) (devices p8) = [0, 1, 1, 1] \<and>
   best p8 ! 1 = Some 2 \<and>
   events (devices p8 ! 3) \<le> events (devices p8 ! 2) \<and> (2::nat) \<le> 3"
proof -
  have loop: "probe_loop K0 (env0 sbs8) ident0 True False None pstate0
                [''a'', ''b'', ''c'', ''d''] = ([], Inr p8)"
    by code_simp
  have ref: "first_super p8 = Some (member 0 10)"
    by (simp add: p8_def)
  have sparc: "\<forall>sb. level (sparc22_shift (env0 sbs8) sb) = level sb"
    by (simp add: env0_def)
  have ev: "map events (devices p8) = [10, 9, 12, 12]"
    by code_simp
  have rd: "map (\<lambda>d. unat (raid_disk d)) (devices p8) = [0, 1, 1, 1]"
    by code_simp
  have b: "1 < length (best p8)" "best p8 ! 1 = Some 2"
    by (simp_all add: p8_def)
  have k3: "3 < length (devices p8)"
    "slot_key (level (member 0 10)) (devices p8 ! 3) 3 = Some 1"
    by code_simp+
  from slot_map_holds_newest [OF loop ref sparc]
  have "case (if 1 < length (best p8) then best p8 ! 1 else None) of
          None \<Rightarrow> (\<forall>k<length (devices p8).
                     slot_key (level (member 0 10)) (devices p8 ! k) k \<noteq> Some 1)
        | Some j \<Rightarrow>
            j < length (devices p8) \<and>
            slot_key (level (member 0 10)) (devices p8 ! j) j = Some 1 \<and>
            (\<forall>k<length (devices p8).
               slot_key (level (member 0 10)) (devices p8 ! k) k = Some 1 \<longrightarrow>
               events (devices p8 ! k) \<le> events (devices p8 ! j) \<and>
               (events (devices p8 ! k) = events (devices p8 ! j) \<longrightarrow> j \<le> k))"
    by blast
  with b have "\<forall>k<length (devices p8).
               slot_key (level (member 0 10)) (devices p8 ! k) k = Some 1 \<longrightarrow>
               events (devices p8 ! k) \<le> events (devices p8 ! 2) \<and>
               (events (devices p8 ! k) = events (devices p8 ! 2) \<longrightarrow> 2 \<le> k)"
    by simp
  with k3 have "events (devices p8 ! 3) \<le> events (devices p8 ! 2)"
    by blast
  with loop ev rd b(2) show ?thesis by simp
qed

section \<open>A device without a superblock\<close>

lemma probe_one_no_superblock:
  assumes wl: "case ident_devices ident of None \<Rightarrow> True | Some pat \<Rightarrow> match_oneof E pat name"
    and nl: "\<forall>maj mnr sb. probe E name \<noteq> Loaded maj mnr sb"
  shows "snd (probe_one K E ident inargv verbose update s name) =
           (if ident_reject K ident None name = None then Fatal 1 else Skipped s)"
  using assms unfolding probe_one_def Let_def
  by (cases "probe E name") (auto split: option.splits)

lemma ident_reject_None:
  "ident_reject K ident None name = None \<longleftrightarrow>
     \<not> ident_uuid_set ident \<and> ident_super_minor ident = UnSet K \<and>
     ident_level ident = UnSet K \<and> ident_raid_disks ident = UnSet K"
  by (simp add: ident_reject_def)

text \<open>Two devices are named; the first has no superblock, the second is member 0.\<close>

definition sbs3 :: "string \<Rightarrow> mdp_super option" where
  "sbs3 name = (if name = ''b'' then Some (member 0 10) else None)"

text \<open>
  C3, as the code has it: a device whose superblock cannot be loaded (the open, the
  stat, the block-device test or \<open>load_super\<close> fails) and whose name passes the
  whitelist ends Assemble with status 1 exactly when the identity gives none of uuid,
  super-minor, level and raid-disks. When one of them is given the device is skipped
  as a mismatch and the loop goes on with the devices left. Neither depends on how
  many devices were supplied, nor on whether they were named on the command line.
\<close>

theorem unloadable_device:
  assumes wl: "case ident_devices ident of None \<Rightarrow> True | Some pat \<Rightarrow> match_oneof E pat name"
    and nl: "\<forall>maj mnr sb. probe E name \<noteq> Loaded maj mnr sb"
  shows "snd (probe_one K E ident inargv verbose update s name) =
           (if \<not> ident_uuid_set ident \<and> ident_super_minor ident = UnSet K \<and>
               ident_level ident = UnSet K \<and> ident_raid_disks ident = UnSet K
            then Fatal 1 else Skipped s) \<and>
         snd (probe_loop K E ident inargv verbose update s (name # rest)) =
           (if \<not> ident_uuid_set ident \<and> ident_super_minor ident = UnSet K \<and>
               ident_level ident = UnSet K \<and> ident_raid_disks ident = UnSet K
            then Inl 1 else snd (probe_loop K E ident inargv verbose update s rest))"
proof -
  have one: "snd (probe_one K E ident inargv verbose update s name) =
           (if \<not> ident_uuid_set ident \<and> ident_super_minor ident = UnSet K \<and>
               ident_level ident = UnSet K \<and> ident_raid_disks ident = UnSet K
            then Fatal 1 else Skipped s)"
    using probe_one_no_superblock [OF wl nl, of K inargv verbose update s]
    by (simp only: ident_reject_None)
  obtain t r where tr: "probe_one K E ident inargv verbose update s name = (t, r)"
    by (cases "probe_one K E ident inargv verbose update s name")
  with one have r: "r = (if \<not> ident_uuid_set ident \<and> ident_super_minor ident = UnSet K \<and>
               ident_level ident = UnSet K \<and> ident_raid_disks ident = UnSet K
            then Fatal 1 else Skipped s)" by simp
  show ?thesis
    using one tr r by (auto split: prod.splits)
qed

text \<open>
  C3 as stated fails: with two devices named and no identity field given, the first
  device having no superblock ends Assemble at once, before the second is looked at.
\<close>

theorem unloadable_device_counterexample:
  "Assemble K0 (env0 sbs3) ident0 [] [''a'', ''b''] False 0 None False False =
     ([Ioctl GET_ARRAY_INFO, Ioctl STOP_ARRAY, Msg (No_RAID_superblock ''a''),
       Msg (No_superblock_aborted ''a'')], Return 1)"
  by code_simp

theorem unloadable_device_witness:
  "probe (env0 sbs3) ''a'' = Load_failed \<and>
   snd (probe_one K0 (env0 sbs3) ident0 True False None pstate0 ''a'') = Fatal 1 \<and>
   snd (probe_loop K0 (env0 sbs3) ident0 True False None pstate0 [''a'', ''b'']) = Inl 1 \<and>
   snd (probe_one K0 (env0 sbs3) (ident0\<lparr>ident_uuid_set := True\<rparr>) True False None pstate0 ''a'')
     = Skipped pstate0"
proof -
  have p: "probe (env0 sbs3) ''a'' = Load_failed" by code_simp
  then have nl: "\<forall>maj mnr sb. probe (env0 sbs3) ''a'' \<noteq> Loaded maj mnr sb" by simp
  have wl: "case ident_devices ident0 of None \<Rightarrow> True
            | Some pat \<Rightarrow> match_oneof (env0 sbs3) pat ''a''"
    by (simp add: ident0_def)
  have wl': "case ident_devices (ident0\<lparr>ident_uuid_set := True\<rparr>) of None \<Rightarrow> True
            | Some pat \<Rightarrow> match_oneof (env0 sbs3) pat ''a''"
    by (simp add: ident0_def)
  from unloadable_device [OF wl nl, of K0 True False None pstate0 "[''b'']"]
       unloadable_device [OF wl' nl, of K0 True False None pstate0 "[]"]
       p
  show ?thesis by (simp add: ident0_def K0_def)
qed

section \<open>More devices than a superblock has slots\<close>

lemma probe_one_full:
  assumes full: "MD_SB_DISKS K \<le> length (devices s)"
  shows "probe_one K E ident inargv verbose update s name \<noteq> (t', Committed s')"
    and "Store_super n sb' \<notin> set (fst (probe_one K E ident inargv verbose update s name))"
  using full unfolding probe_one_def Let_def probe_msgs_def
  by (auto split: option.splits probe_result.splits prod.splits bool.splits)

lemma probe_one_too_many:
  assumes full: "MD_SB_DISKS K \<le> length (devices s)"
    and wl: "case ident_devices ident of None \<Rightarrow> True | Some pat \<Rightarrow> match_oneof E pat name"
    and ld: "probe E name = Loaded maj mnr sb"
    and id: "ident_reject K ident (Some sb) name = None"
    and cmp: "compare_super (first_super s) sb = (False, fs)"
  shows "probe_one K E ident inargv verbose update s name =
           ([Msg (Too_many_devices name)], Skipped (s\<lparr>first_super := fs\<rparr>))"
  using assms unfolding probe_one_def Let_def probe_msgs_def
  by (auto split: option.splits)

lemma probe_loop_bound:
  assumes "probe_loop K E ident inargv verbose update s names = (t, Inr p)"
    and "length (devices s) \<le> MD_SB_DISKS K"
  shows "length (devices p) \<le> MD_SB_DISKS K"
proof (rule probe_loop_invariant [OF assms(1), where P = "\<lambda>s. length (devices s) \<le> MD_SB_DISKS K"])
  show "length (devices s) \<le> MD_SB_DISKS K" by (rule assms(2))
next
  fix s name t s'
  assume "length (devices s) \<le> MD_SB_DISKS K"
    "probe_one K E ident inargv verbose update s name = (t, Skipped s')"
  with probe_one_Skipped [of K E ident inargv verbose update s name t s']
  show "length (devices s') \<le> MD_SB_DISKS K" by simp
next
  fix s name t s'
  assume "length (devices s) \<le> MD_SB_DISKS K"
    and one: "probe_one K E ident inargv verbose update s name = (t, Committed s')"
  from one show "length (devices s') \<le> MD_SB_DISKS K"
    by (rule probe_one_Committed) (simp add: commit_device_devices)
qed

text \<open>
  Twenty-eight device names, all with the same superblock, and the state \<open>p10\<close> with
  the first twenty-seven of them committed.
\<close>

definition names28 :: "string list" where
  "names28 = [''d00'', ''d01'', ''d02'', ''d03'', ''d04'', ''d05'', ''d06'', ''d07'', ''d08'', ''d09'', ''d10'', ''d11'', ''d12'', ''d13'', ''d14'', ''d15'', ''d16'', ''d17'', ''d18'', ''d19'', ''d20'', ''d21'', ''d22'', ''d23'', ''d24'', ''d25'', ''d26'', ''d27'']"

definition p10 :: pstate where
  "p10 = \<lparr>first_super = Some (member 0 10),
           devices = map (\<lambda>n. probed n (member 0 10)) (take 27 names28),
           best = [Some 0, None, None, None, None, None, None, None, None, None],
           most_recent = 0\<rparr>"

definition E10 :: env where
  "E10 = env0 (\<lambda>n. Some (member 0 10))"

text \<open>
  The two checks of lines 256 to 265 come before the limit of line 269: a device that
  has passed the whitelist and the identity filter ends Assemble with status 1 when it
  has no superblock or when its superblock does not match the reference, whatever
  \<open>devcnt\<close> is.
\<close>

lemma probe_one_mismatch:
  assumes wl: "case ident_devices ident of None \<Rightarrow> True | Some pat \<Rightarrow> match_oneof E pat name"
    and ld: "probe E name = Loaded maj mnr sb"
    and id: "ident_reject K ident (Some sb) name = None"
    and cmp: "compare_super (first_super s) sb = (True, fs)"
  shows "probe_one K E ident inargv verbose update s name =
           ([Msg (Doesnt_match_others name)], Fatal 1)"
  using assms unfolding probe_one_def Let_def probe_msgs_def
  by (auto split: option.splits)

lemma probe_one_not_loaded:
  assumes wl: "case ident_devices ident of None \<Rightarrow> True | Some pat \<Rightarrow> match_oneof E pat name"
    and ld: "\<forall>maj mnr sb. probe E name \<noteq> Loaded maj mnr sb"
    and id: "ident_reject K ident None name = None"
  shows "probe_one K E ident inargv verbose update s name =
           (probe_msgs (inargv \<or> verbose) name (probe E name)
              @ [Msg (No_superblock_aborted name)], Fatal 1)"
  using assms unfolding probe_one_def Let_def
  by (cases "probe E name") (auto split: option.splits)

text \<open>\<open>stranger\<close> is a superblock of another array; in \<open>E10s\<close> the device \<open>d27\<close> carries it.\<close>

definition stranger :: mdp_super where
  "stranger = (member 0 10)\<lparr>set_uuid := 2\<rparr>"

definition E10s :: env where
  "E10s = env0 (\<lambda>n. if n = ''d27'' then Some stranger else Some (member 0 10))"

text \<open>
  C10, amended: the probe loop never commits more than \<open>MD_SB_DISKS\<close> devices. Once
  \<open>devcnt\<close> has reached \<open>MD_SB_DISKS\<close>, no device is committed and none has its
  superblock written. A further device that passes the whitelist and the identity
  filter is still put to the checks of lines 256 to 265: without a superblock, or with
  a superblock that does not match the reference, it ends Assemble with status 1. Only
  a device that matches the reference is skipped with the warning; then \<open>devices\<close>,
  \<open>best\<close> and \<open>most_recent\<close> stay as they are and the loop goes on with the next device.
\<close>

theorem too_many_devices:
  "(probe_loop K E ident inargv verbose update pstate0 names = (t, Inr p) \<longrightarrow>
      length (devices p) \<le> MD_SB_DISKS K) \<and>
   (MD_SB_DISKS K \<le> length (devices s) \<longrightarrow>
      probe_one K E ident inargv verbose update s name \<noteq> (t', Committed s') \<and>
      Store_super n sb' \<notin> set (fst (probe_one K E ident inargv verbose update s name)) \<and>
      ((case ident_devices ident of None \<Rightarrow> True | Some pat \<Rightarrow> match_oneof E pat name) \<and>
       probe E name = Loaded maj mnr sb \<and> ident_reject K ident (Some sb) name = None \<longrightarrow>
       (case compare_super (first_super s) sb of
          (True, fs) \<Rightarrow>
            probe_one K E ident inargv verbose update s name =
              ([Msg (Doesnt_match_others name)], Fatal 1) \<and>
            probe_loop K E ident inargv verbose update s (name # rest) =
              ([Msg (Doesnt_match_others name)], Inl 1)
        | (False, fs) \<Rightarrow>
            probe_one K E ident inargv verbose update s name =
              ([Msg (Too_many_devices name)], Skipped (s\<lparr>first_super := fs\<rparr>)) \<and>
            probe_loop K E ident inargv verbose update s (name # rest) =
              (Msg (Too_many_devices name)
                 # fst (probe_loop K E ident inargv verbose update (s\<lparr>first_super := fs\<rparr>) rest),
               snd (probe_loop K E ident inargv verbose update (s\<lparr>first_super := fs\<rparr>) rest)))) \<and>
      ((case ident_devices ident of None \<Rightarrow> True | Some pat \<Rightarrow> match_oneof E pat name) \<and>
       (\<forall>maj mnr sb. probe E name \<noteq> Loaded maj mnr sb) \<and>
       ident_reject K ident None name = None \<longrightarrow>
       probe_one K E ident inargv verbose update s name =
         (probe_msgs (inargv \<or> verbose) name (probe E name)
            @ [Msg (No_superblock_aborted name)], Fatal 1) \<and>
       probe_loop K E ident inargv verbose update s (name # rest) =
         (probe_msgs (inargv \<or> verbose) name (probe E name)
            @ [Msg (No_superblock_aborted name)], Inl 1)))"
proof (intro conjI impI)
  assume "probe_loop K E ident inargv verbose update pstate0 names = (t, Inr p)"
  then show "length (devices p) \<le> MD_SB_DISKS K"
    by (rule probe_loop_bound) (simp add: pstate0_def)
next
  assume "MD_SB_DISKS K \<le> length (devices s)"
  then show "probe_one K E ident inargv verbose update s name \<noteq> (t', Committed s')"
    by (rule probe_one_full(1))
next
  assume "MD_SB_DISKS K \<le> length (devices s)"
  then show "Store_super n sb' \<notin> set (fst (probe_one K E ident inargv verbose update s name))"
    by (rule probe_one_full(2))
next
  assume full: "MD_SB_DISKS K \<le> length (devices s)"
    and h: "(case ident_devices ident of None \<Rightarrow> True | Some pat \<Rightarrow> match_oneof E pat name) \<and>
         probe E name = Loaded maj mnr sb \<and> ident_reject K ident (Some sb) name = None"
  from h have wl: "case ident_devices ident of None \<Rightarrow> True | Some pat \<Rightarrow> match_oneof E pat name"
    and ld: "probe E name = Loaded maj mnr sb"
    and id: "ident_reject K ident (Some sb) name = None"
    by simp_all
  obtain b fs where cmp: "compare_super (first_super s) sb = (b, fs)"
    by (cases "compare_super (first_super s) sb")
  show "case compare_super (first_super s) sb of
          (True, fs) \<Rightarrow>
            probe_one K E ident inargv verbose update s name =
              ([Msg (Doesnt_match_others name)], Fatal 1) \<and>
            probe_loop K E ident inargv verbose update s (name # rest) =
              ([Msg (Doesnt_match_others name)], Inl 1)
        | (False, fs) \<Rightarrow>
            probe_one K E ident inargv verbose update s name =
              ([Msg (Too_many_devices name)], Skipped (s\<lparr>first_super := fs\<rparr>)) \<and>
            probe_loop K E ident inargv verbose update s (name # rest) =
              (Msg (Too_many_devices name)
                 # fst (probe_loop K E ident inargv verbose update (s\<lparr>first_super := fs\<rparr>) rest),
               snd (probe_loop K E ident inargv verbose update (s\<lparr>first_super := fs\<rparr>) rest))"
  proof (cases b)
    case True
    with cmp have c: "compare_super (first_super s) sb = (True, fs)" by simp
    note one = probe_one_mismatch [OF wl ld id c, of inargv verbose update]
    show ?thesis unfolding c by (simp add: one)
  next
    case False
    with cmp have c: "compare_super (first_super s) sb = (False, fs)" by simp
    note one = probe_one_too_many [OF full wl ld id c, of inargv verbose update]
    show ?thesis unfolding c by (simp add: one split: prod.splits)
  qed
next
  assume h: "(case ident_devices ident of None \<Rightarrow> True | Some pat \<Rightarrow> match_oneof E pat name) \<and>
       (\<forall>maj mnr sb. probe E name \<noteq> Loaded maj mnr sb) \<and>
       ident_reject K ident None name = None"
  from h have wl: "case ident_devices ident of None \<Rightarrow> True | Some pat \<Rightarrow> match_oneof E pat name"
    and ld: "\<forall>maj mnr sb. probe E name \<noteq> Loaded maj mnr sb"
    and id: "ident_reject K ident None name = None"
    by simp_all
  note one = probe_one_not_loaded [OF wl ld id, of inargv verbose update s]
  show "probe_one K E ident inargv verbose update s name =
         (probe_msgs (inargv \<or> verbose) name (probe E name)
            @ [Msg (No_superblock_aborted name)], Fatal 1)"
    by (rule one)
  show "probe_loop K E ident inargv verbose update s (name # rest) =
         (probe_msgs (inargv \<or> verbose) name (probe E name)
            @ [Msg (No_superblock_aborted name)], Inl 1)"
    by (simp add: one)
qed

text \<open>
  Twenty-seven members are committed and the twenty-eighth device, which passes the
  identity filter (no field of the identity is given), belongs to another array: it is
  not skipped, Assemble ends with status 1.
\<close>

theorem too_many_devices_counterexample:
  "probe_loop K0 E10s ident0 True False None pstate0 (take 27 names28) = ([], Inr p10) \<and>
   length (devices p10) = MD_SB_DISKS K0 \<and>
   probe E10s ''d27'' = Loaded 8 0 stranger \<and>
   ident_reject K0 ident0 (Some stranger) ''d27'' = None \<and>
   probe_one K0 E10s ident0 True False None p10 ''d27'' =
     ([Msg (Doesnt_match_others ''d27'')], Fatal 1) \<and>
   Assemble K0 E10s ident0 [] names28 False 0 None False False =
     ([Ioctl GET_ARRAY_INFO, Ioctl STOP_ARRAY, Msg (Doesnt_match_others ''d27'')], Return 1)"
  by code_simp

text \<open>The twenty-eighth device as one more member, and as a stranger.\<close>

theorem too_many_devices_witness:
  "length (devices p10) = 27 \<and>
   probe_loop K0 E10 ident0 True False (Some ''resync'') pstate0 (take 2 names28) =
     ([Store_super ''d00'' ((member 0 10)\<lparr>sb_state := 0\<rparr>),
       Store_super ''d01'' ((member 0 10)\<lparr>sb_state := 0\<rparr>)],
      Inr (p10\<lparr>devices := take 2 (devices p10)\<rparr>)) \<and>
   probe_one K0 E10 ident0 True False (Some ''resync'') p10 ''d27'' =
     ([Msg (Too_many_devices ''d27'')], Skipped p10) \<and>
   probe_loop K0 E10 ident0 True False (Some ''resync'') p10 [''d27''] =
     ([Msg (Too_many_devices ''d27'')], Inr p10) \<and>
   probe_loop K0 E10s ident0 True False (Some ''resync'') p10 [''d27''] =
     ([Msg (Doesnt_match_others ''d27'')], Inl 1)"
proof -
  have len: "MD_SB_DISKS K0 \<le> length (devices p10)" by code_simp
  have len': "length (devices p10) = 27" by code_simp
  have loop: "probe_loop K0 E10 ident0 True False (Some ''resync'') pstate0 (take 2 names28) =
     ([Store_super ''d00'' ((member 0 10)\<lparr>sb_state := 0\<rparr>),
       Store_super ''d01'' ((member 0 10)\<lparr>sb_state := 0\<rparr>)],
      Inr (p10\<lparr>devices := take 2 (devices p10)\<rparr>))" by code_simp
  have h: "(case ident_devices ident0 of None \<Rightarrow> True | Some pat \<Rightarrow> match_oneof E10 pat ''d27'') \<and>
         probe E10 ''d27'' = Loaded 8 0 (member 0 10) \<and>
         ident_reject K0 ident0 (Some (member 0 10)) ''d27'' = None"
    and c: "compare_super (first_super p10) (member 0 10) = (False, first_super p10)"
    and hs: "(case ident_devices ident0 of None \<Rightarrow> True | Some pat \<Rightarrow> match_oneof E10s pat ''d27'') \<and>
         probe E10s ''d27'' = Loaded 8 0 stranger \<and>
         ident_reject K0 ident0 (Some stranger) ''d27'' = None"
    and cs: "compare_super (first_super p10) stranger = (True, first_super p10)"
    by code_simp+
  note T = too_many_devices [where K = K0 and ident = ident0 and inargv = True
      and verbose = False and update = "Some ''resync''" and s = p10 and name = "''d27''"
      and rest = "[]" and maj = 8 and mnr = 0]
  from T [where E = E10 and sb = "member 0 10", THEN conjunct2, THEN mp, OF len,
      THEN conjunct2, THEN conjunct2, THEN conjunct1, THEN mp, OF h]
  have a: "probe_one K0 E10 ident0 True False (Some ''resync'') p10 ''d27'' =
           ([Msg (Too_many_devices ''d27'')], Skipped p10) \<and>
        probe_loop K0 E10 ident0 True False (Some ''resync'') p10 [''d27''] =
           ([Msg (Too_many_devices ''d27'')], Inr p10)"
    unfolding c by simp
  from T [where E = E10s and sb = stranger, THEN conjunct2, THEN mp, OF len,
      THEN conjunct2, THEN conjunct2, THEN conjunct1, THEN mp, OF hs]
  have b: "probe_loop K0 E10s ident0 True False (Some ''resync'') p10 [''d27''] =
     ([Msg (Doesnt_match_others ''d27'')], Inl 1)"
    unfolding cs by simp
  from len' loop a b show ?thesis by simp
qed

section \<open>The availability scan\<close>

text \<open>
  What the probe loop guarantees for the scan: every entry of \<open>best\<close> is an index of
  \<open>devices\<close>, no device is marked up to date yet, and \<open>most_recent\<close> is an index of
  \<open>devices\<close> once there is a device. \<open>up_cond\<close> is the test the scan applies to the
  device of a slot, \<open>spare_slot\<close> says when the slot \<open>i\<close> adds one to \<open>sparecnt\<close>, and
  \<open>scan_inv\<close> is the state of the scan after the slots below \<open>m\<close>.
\<close>

definition best_in_range :: "device list \<Rightarrow> nat option list \<Rightarrow> bool" where
  "best_in_range devs bst \<longleftrightarrow> (\<forall>j. Some j \<in> set bst \<longrightarrow> j < length devs)"

lemma set_grow_best: "set (grow_best b i) \<subseteq> insert None (set b)"
  by (auto simp: grow_best_def)

lemma best_in_range_commit:
  assumes "best_in_range (devices s) (best s)"
  shows "best_in_range (devices (commit_device sb dev s)) (best (commit_device sb dev s))"
proof -
  have "set (best (commit_device sb dev s))
          \<subseteq> insert (Some (length (devices s))) (insert None (set (best s)))"
    using set_grow_best set_update_subset_insert
    by (fastforce simp: commit_device_best split: option.splits if_splits)
  with assms show ?thesis
    by (auto simp: best_in_range_def commit_device_devices less_Suc_eq)
qed

lemma probe_loop_best_in_range:
  assumes "probe_loop K E ident inargv verbose update pstate0 names = (t, Inr p)"
  shows "best_in_range (devices p) (best p)"
proof (rule probe_loop_invariant [OF assms, where P = "\<lambda>s. best_in_range (devices s) (best s)"])
  show "best_in_range (devices pstate0) (best pstate0)"
    by (simp add: best_in_range_def pstate0_def)
next
  fix s name t s'
  assume "best_in_range (devices s) (best s)"
    "probe_one K E ident inargv verbose update s name = (t, Skipped s')"
  with probe_one_Skipped [of K E ident inargv verbose update s name t s']
  show "best_in_range (devices s') (best s')" by simp
next
  fix s name t s'
  assume inv: "best_in_range (devices s) (best s)"
    and one: "probe_one K E ident inargv verbose update s name = (t, Committed s')"
  from one obtain fs sb' dev where s': "s' = commit_device sb' dev (s\<lparr>first_super := fs\<rparr>)"
    by (rule probe_one_Committed)
  from inv have "best_in_range (devices (s\<lparr>first_super := fs\<rparr>)) (best (s\<lparr>first_super := fs\<rparr>))"
    by simp
  then show "best_in_range (devices s') (best s')"
    unfolding s' by (rule best_in_range_commit)
qed

lemma probe_loop_not_uptodate:
  assumes "probe_loop K E ident inargv verbose update pstate0 names = (t, Inr p)"
  shows "\<forall>d\<in>set (devices p). \<not> uptodate d"
proof (rule probe_loop_invariant [OF assms, where P = "\<lambda>s. \<forall>d\<in>set (devices s). \<not> uptodate d"])
  show "\<forall>d\<in>set (devices pstate0). \<not> uptodate d"
    by (simp add: pstate0_def)
next
  fix s name t s'
  assume "\<forall>d\<in>set (devices s). \<not> uptodate d"
    "probe_one K E ident inargv verbose update s name = (t, Skipped s')"
  with probe_one_Skipped [of K E ident inargv verbose update s name t s']
  show "\<forall>d\<in>set (devices s'). \<not> uptodate d" by simp
next
  fix s name t s'
  assume inv: "\<forall>d\<in>set (devices s). \<not> uptodate d"
    and one: "probe_one K E ident inargv verbose update s name = (t, Committed s')"
  from one obtain fs sb' name' maj mnr where
    s': "s' = commit_device sb' (record_device name' maj mnr sb') (s\<lparr>first_super := fs\<rparr>)"
    by (rule probe_one_Committed)
  from inv show "\<forall>d\<in>set (devices s'). \<not> uptodate d"
    unfolding s' by (simp add: commit_device_devices record_device_def)
qed


definition up_cond :: "md_consts \<Rightarrow> bool \<Rightarrow> mdp_super \<Rightarrow> pstate \<Rightarrow> nat \<Rightarrow> bool" where
  "up_cond K force fs p j \<longleftrightarrow>
     (sint (level fs) \<noteq> - 4 \<longrightarrow> state (devices p ! j) AND flag (MD_DISK_SYNC K) \<noteq> 0) \<and>
     events (devices p ! most_recent p)
       \<le> ll_add (events (devices p ! j)) (if force then 0 else 1)"

definition spare_slot :: "md_consts \<Rightarrow> bool \<Rightarrow> mdp_super \<Rightarrow> pstate \<Rightarrow> nat \<Rightarrow> bool" where
  "spare_slot K force fs p i \<longleftrightarrow>
     (case best p ! i of
        None \<Rightarrow> False
      | Some j \<Rightarrow>
          if sint (level fs) \<noteq> - 4 \<and> state (devices p ! j) AND flag (MD_DISK_SYNC K) = 0
          then state (devices p ! j) AND flag (MD_DISK_FAULTY K) = 0
          else up_cond K force fs p j \<and> unat (raid_disks fs) \<le> i)"

definition scan_inv ::
  "md_consts \<Rightarrow> bool \<Rightarrow> mdp_super \<Rightarrow> pstate \<Rightarrow> nat \<Rightarrow> astate \<Rightarrow> bool" where
  "scan_inv K force fs p m s \<longleftrightarrow>
     best s = best p \<and> most_recent s = most_recent p \<and>
     length (devices s) = length (devices p) \<and>
     length (avail s) = unat (raid_disks fs) \<and>
     (\<forall>k<length (devices p).
        events (devices s ! k) = events (devices p ! k) \<and>
        state (devices s ! k) = state (devices p ! k) \<and>
        (uptodate (devices s ! k) \<longleftrightarrow>
           uptodate (devices p ! k) \<or> (\<exists>i<m. best p ! i = Some k \<and> up_cond K force fs p k))) \<and>
     (\<forall>i<unat (raid_disks fs).
        avail s ! i \<longleftrightarrow> i < m \<and> (\<exists>j. best p ! i = Some j \<and> up_cond K force fs p j)) \<and>
     sparecnt s = of_nat (length (filter (spare_slot K force fs p) [0 ..< m]))"

lemma scan_inv_0: "scan_inv K force fs p 0 (astate0 p fs)"
  by (simp add: scan_inv_def astate0_def)

lemma probe_loop_most_recent:
  assumes "probe_loop K E ident inargv verbose update pstate0 names = (t, Inr p)"
  shows "most_recent p \<le> length (devices p) - 1"
proof (rule probe_loop_invariant [OF assms, where P = "\<lambda>s. most_recent s \<le> length (devices s) - 1"])
  show "most_recent pstate0 \<le> length (devices pstate0) - 1"
    by (simp add: pstate0_def)
next
  fix s name t s'
  assume "most_recent s \<le> length (devices s) - 1"
    "probe_one K E ident inargv verbose update s name = (t, Skipped s')"
  with probe_one_Skipped [of K E ident inargv verbose update s name t s']
  show "most_recent s' \<le> length (devices s') - 1" by simp
next
  fix s name t s'
  assume inv: "most_recent s \<le> length (devices s) - 1"
    and one: "probe_one K E ident inargv verbose update s name = (t, Committed s')"
  from one obtain fs sb' dev where
    s': "s' = commit_device sb' dev (s\<lparr>first_super := fs\<rparr>)"
    by (rule probe_one_Committed)
  from inv show "most_recent s' \<le> length (devices s') - 1"
    unfolding s' by (auto simp: commit_device_def Let_def)
qed

lemma scan_inv_step:
  assumes wf: "best_in_range (devices p) (best p)"
    and mrp: "most_recent p \<le> length (devices p) - 1"
    and m: "m < length (best p)"
    and inv: "scan_inv K force fs p m s"
  shows "scan_inv K force fs p (Suc m) (scan_step K force fs s m)"
proof (cases "best p ! m")
  case None
  with inv show ?thesis
    by (auto simp: scan_inv_def scan_step_def spare_slot_def less_Suc_eq)
next
  case (Some j)
  with wf m have j: "j < length (devices p)"
    by (auto simp: best_in_range_def dest: nth_mem)
  from inv j have ev: "events (devices s ! j) = events (devices p ! j)"
    and st: "state (devices s ! j) = state (devices p ! j)"
    by (simp_all add: scan_inv_def)
  from inv wf have mr: "most_recent s = most_recent p" "best s = best p"
    "length (devices s) = length (devices p)"
    by (simp_all add: scan_inv_def)
  have re: "recent_enough force s j \<longleftrightarrow>
        events (devices p ! most_recent p)
          \<le> ll_add (events (devices p ! j)) (if force then 0 else 1)"
  proof -
    from j mrp have "most_recent p < length (devices p)" by simp
    with inv have "events (devices s ! most_recent p) = events (devices p ! most_recent p)"
      by (simp add: scan_inv_def)
    with ev mr show ?thesis by (simp add: recent_enough_def)
  qed
  consider (nonsync) "sint (level fs) \<noteq> - 4" "state (devices p ! j) AND flag (MD_DISK_SYNC K) = 0"
    | (up) "up_cond K force fs p j"
    | (old) "\<not> (sint (level fs) \<noteq> - 4 \<and> state (devices p ! j) AND flag (MD_DISK_SYNC K) = 0)"
        "\<not> up_cond K force fs p j"
    by (auto simp: up_cond_def)
  then show ?thesis
  proof cases
    case nonsync
    then have nu: "\<not> up_cond K force fs p j" by (simp add: up_cond_def)
    have step: "scan_step K force fs s m =
        (if state (devices p ! j) AND flag (MD_DISK_FAULTY K) = 0
         then s\<lparr>sparecnt := sparecnt s + 1\<rparr> else s)"
      using nonsync Some mr st by (simp add: scan_step_def)
    have sp: "spare_slot K force fs p m \<longleftrightarrow> state (devices p ! j) AND flag (MD_DISK_FAULTY K) = 0"
      using nonsync Some by (simp add: spare_slot_def)
    from inv Some nu show ?thesis
      unfolding step scan_inv_def
      by (auto simp: sp less_Suc_eq)
  next
    case up
    then have c1: "\<not> (sint (level fs) \<noteq> - 4 \<and> state (devices p ! j) AND flag (MD_DISK_SYNC K) = 0)"
      and c2: "events (devices p ! most_recent p)
                 \<le> ll_add (events (devices p ! j)) (if force then 0 else 1)"
      by (auto simp: up_cond_def)
    define s1 where "s1 = s\<lparr>devices := (devices s)[j := (devices s ! j)\<lparr>uptodate := True\<rparr>]\<rparr>"
    have step: "scan_step K force fs s m =
        (if m < unat (raid_disks fs)
         then s1\<lparr>okcnt := okcnt s1 + 1, avail := (avail s1)[m := True]\<rparr>
         else s1\<lparr>sparecnt := sparecnt s1 + 1\<rparr>)"
      using c1 c2 Some mr st re by (auto simp: scan_step_def s1_def Let_def)
    have sp: "spare_slot K force fs p m \<longleftrightarrow> unat (raid_disks fs) \<le> m"
      using c1 up Some by (auto simp: spare_slot_def)
    have dev1: "\<And>k. k < length (devices p) \<Longrightarrow>
        events (devices s1 ! k) = events (devices p ! k) \<and>
        state (devices s1 ! k) = state (devices p ! k) \<and>
        (uptodate (devices s1 ! k) \<longleftrightarrow>
           uptodate (devices p ! k) \<or> (\<exists>i<Suc m. best p ! i = Some k \<and> up_cond K force fs p k))"
      using inv Some up j unfolding scan_inv_def s1_def
      by (auto simp: nth_list_update less_Suc_eq)
    have rest1: "best s1 = best p" "most_recent s1 = most_recent p"
      "length (devices s1) = length (devices p)" "length (avail s) = unat (raid_disks fs)"
      "avail s1 = avail s" "sparecnt s1 = sparecnt s"
      using inv by (simp_all add: scan_inv_def s1_def)
    have av: "\<And>i. i < unat (raid_disks fs) \<Longrightarrow>
        (if m < unat (raid_disks fs) then (avail s)[m := True] else avail s) ! i \<longleftrightarrow>
          i < Suc m \<and> (\<exists>j. best p ! i = Some j \<and> up_cond K force fs p j)"
      using inv Some up unfolding scan_inv_def
      by (auto simp: nth_list_update less_Suc_eq)
    have cnt: "(if m < unat (raid_disks fs) then sparecnt s else sparecnt s + 1) =
          of_nat (length (filter (spare_slot K force fs p) [0 ..< Suc m]))"
      using inv sp by (simp add: scan_inv_def)
    show ?thesis
    proof (cases "m < unat (raid_disks fs)")
      case True
      with sp have nsp: "\<not> spare_slot K force fs p m" by simp
      from True av have av': "\<And>i. i < unat (raid_disks fs) \<Longrightarrow>
          (avail s)[m := True] ! i \<longleftrightarrow>
            i < Suc m \<and> (\<exists>j. best p ! i = Some j \<and> up_cond K force fs p j)"
        by simp
      from True cnt have cnt': "sparecnt s =
          of_nat (length (filter (spare_slot K force fs p) [0 ..< Suc m]))"
        by simp
      from True step have step': "scan_step K force fs s m =
          s1\<lparr>okcnt := okcnt s1 + 1, avail := (avail s1)[m := True]\<rparr>" by simp
      show ?thesis
        unfolding step' scan_inv_def
        by (simp add: dev1 rest1 av' cnt' del: upt_Suc)
    next
      case False
      from False av have av': "\<And>i. i < unat (raid_disks fs) \<Longrightarrow>
          avail s ! i \<longleftrightarrow>
            i < Suc m \<and> (\<exists>j. best p ! i = Some j \<and> up_cond K force fs p j)"
        by simp
      from False cnt have cnt': "sparecnt s + 1 =
          of_nat (length (filter (spare_slot K force fs p) [0 ..< Suc m]))"
        by simp
      from False step have step': "scan_step K force fs s m =
          s1\<lparr>sparecnt := sparecnt s1 + 1\<rparr>" by simp
      show ?thesis
        unfolding step' scan_inv_def
        by (simp add: dev1 rest1 av' cnt' del: upt_Suc)
    qed
  next
    case old
    then have step: "scan_step K force fs s m = s"
      using Some mr st re by (auto simp: scan_step_def up_cond_def)
    have sp: "\<not> spare_slot K force fs p m"
      using old Some by (auto simp: spare_slot_def)
    from inv Some old(2) show ?thesis
      unfolding step scan_inv_def
      by (auto simp: sp less_Suc_eq)
  qed
qed


lemma scan_inv_upto:
  assumes wf: "best_in_range (devices p) (best p)"
    and mrp: "most_recent p \<le> length (devices p) - 1"
    and m: "m \<le> length (best p)"
  shows "scan_inv K force fs p m (foldl (scan_step K force fs) (astate0 p fs) [0 ..< m])"
  using m
proof (induction m)
  case 0
  show ?case by (simp add: scan_inv_0)
next
  case (Suc m)
  then have "scan_inv K force fs p m (foldl (scan_step K force fs) (astate0 p fs) [0 ..< m])"
    and "m < length (best p)" by simp_all
  from scan_inv_step [OF wf mrp this(2,1)] show ?case by simp
qed

lemma avail_scan_inv:
  assumes "probe_loop K E ident inargv verbose update pstate0 names = (t, Inr p)"
  shows "scan_inv K force fs p (length (best p)) (avail_scan K force fs p)"
  unfolding avail_scan_def
  by (rule scan_inv_upto [OF probe_loop_best_in_range [OF assms] probe_loop_most_recent [OF assms]])
     simp


text \<open>
  Members 0, 1 and 2 with 11, 12 and 5 events, and a fourth device that is neither
  in sync nor faulty, in slot 3.
\<close>

definition spare_disk :: mdp_disk where
  "spare_disk = \<lparr>d_number = 3, d_major = 8, d_minor = 48, d_raid_disk = 3, d_state = 0\<rparr>"

definition sbs9 :: "string \<Rightarrow> mdp_super option" where
  "sbs9 name =
     (if name = ''a'' then Some (member 0 11)
      else if name = ''b'' then Some (member 1 12)
      else if name = ''c'' then Some (member 2 5)
      else if name = ''d'' then Some ((member 0 12)\<lparr>this_disk := spare_disk\<rparr>)
      else None)"

definition p9 :: pstate where
  "p9 = \<lparr>first_super = Some (member 0 11),
          devices = [probed ''a'' (member 0 11), probed ''b'' (member 1 12),
                     probed ''c'' (member 2 5),
                     probed ''d'' ((member 0 12)\<lparr>this_disk := spare_disk\<rparr>)],
          best = [Some 0, Some 1, Some 2, Some 3, None, None, None, None, None, None],
          most_recent = 1\<rparr>"

text \<open>
  The scan in general, with the sum of line 410 as the machine takes it: after the
  scan, for every data slot \<open>i\<close> below \<open>raid_disks\<close>, the device \<open>best[i]\<close> is marked up
  to date, and \<open>avail[i]\<close> is set, exactly when its SYNC bit is set (not looked at for
  level -4) and its event count plus the margin, in 64 bits, reaches that of the most
  recent device; the margin is 1 without \<open>force\<close> and 0 with it. A slot without a device
  has \<open>avail[i]\<close> clear. \<open>sparecnt\<close> counts the slots whose device is, in an array that
  is not multipath, neither in sync nor faulty, together with the slots from
  \<open>raid_disks\<close> on whose device passes the test.
\<close>


theorem initial_scan:
  assumes loop: "probe_loop K E ident inargv verbose update pstate0 names = (t, Inr p)"
    and i: "i < unat (raid_disks fs)"
  shows "length (avail (avail_scan K force fs p)) = unat (raid_disks fs) \<and>
         (case (if i < length (best p) then best p ! i else None) of
            None \<Rightarrow> \<not> avail (avail_scan K force fs p) ! i
          | Some j \<Rightarrow>
              (uptodate (devices (avail_scan K force fs p) ! j) \<longleftrightarrow>
                 (sint (level fs) \<noteq> - 4 \<longrightarrow>
                    state (devices p ! j) AND flag (MD_DISK_SYNC K) \<noteq> 0) \<and>
                 events (devices p ! most_recent p)
                   \<le> ll_add (events (devices p ! j)) (if force then 0 else 1)) \<and>
              (avail (avail_scan K force fs p) ! i \<longleftrightarrow>
                 (sint (level fs) \<noteq> - 4 \<longrightarrow>
                    state (devices p ! j) AND flag (MD_DISK_SYNC K) \<noteq> 0) \<and>
                 events (devices p ! most_recent p)
                   \<le> ll_add (events (devices p ! j)) (if force then 0 else 1))) \<and>
         sparecnt (avail_scan K force fs p) =
           of_nat (length (filter (spare_slot K force fs p) [0 ..< length (best p)]))"
proof -
  let ?s = "avail_scan K force fs p"
  note inv = avail_scan_inv [OF loop, where force = force and fs = fs]
  from inv have len: "length (avail ?s) = unat (raid_disks fs)"
    and sp: "sparecnt ?s = of_nat (length (filter (spare_slot K force fs p) [0 ..< length (best p)]))"
    by (simp_all add: scan_inv_def)
  from inv i have av: "avail ?s ! i \<longleftrightarrow>
      i < length (best p) \<and> (\<exists>j. best p ! i = Some j \<and> up_cond K force fs p j)"
    by (simp add: scan_inv_def)
  have main: "case (if i < length (best p) then best p ! i else None) of
            None \<Rightarrow> \<not> avail ?s ! i
          | Some j \<Rightarrow>
              (uptodate (devices ?s ! j) \<longleftrightarrow> up_cond K force fs p j) \<and>
              (avail ?s ! i \<longleftrightarrow> up_cond K force fs p j)"
  proof (cases "if i < length (best p) then best p ! i else None")
    case None
    with av show ?thesis by (auto split: if_splits)
  next
    case (Some j)
    then have ij: "i < length (best p)" "best p ! i = Some j" by (simp_all split: if_splits)
    with probe_loop_best_in_range [OF loop] have j: "j < length (devices p)"
      by (auto simp: best_in_range_def dest: nth_mem)
    with probe_loop_not_uptodate [OF loop] have "\<not> uptodate (devices p ! j)" by simp
    with inv j have "uptodate (devices ?s ! j) \<longleftrightarrow>
        (\<exists>i<length (best p). best p ! i = Some j \<and> up_cond K force fs p j)"
      by (simp add: scan_inv_def)
    with ij have "uptodate (devices ?s ! j) \<longleftrightarrow> up_cond K force fs p j" by auto
    with av ij Some show ?thesis by simp
  qed
  show ?thesis
    by (rule conjI [OF len conjI [OF main [unfolded up_cond_def] sp]])
qed

theorem initial_scan_witness:
  "probe_loop K0 (env0 sbs9) ident0 True False None pstate0 [''a'', ''b'', ''c'', ''d'']
     = ([], Inr p9) \<and>
   map events (devices p9) = [11, 12, 5, 12] \<and>
   map state (devices p9) = [6, 6, 6, 0] \<and>
   avail (avail_scan K0 False (member 0 11) p9) = [True, True, False] \<and>
   map uptodate (devices (avail_scan K0 False (member 0 11) p9)) = [True, True, False, False] \<and>
   okcnt (avail_scan K0 False (member 0 11) p9) = 2 \<and>
   sparecnt (avail_scan K0 False (member 0 11) p9) = 1 \<and>
   uptodate (devices (avail_scan K0 False (member 0 11) p9) ! 0) \<and>
   \<not> avail (avail_scan K0 False (member 0 11) p9) ! 2"
proof -
  have loop: "probe_loop K0 (env0 sbs9) ident0 True False None pstate0
                [''a'', ''b'', ''c'', ''d''] = ([], Inr p9)"
    by code_simp
  have facts: "map events (devices p9) = [11, 12, 5, 12]"
    "map state (devices p9) = [6, 6, 6, 0]"
    "avail (avail_scan K0 False (member 0 11) p9) = [True, True, False]"
    "map uptodate (devices (avail_scan K0 False (member 0 11) p9)) = [True, True, False, False]"
    "okcnt (avail_scan K0 False (member 0 11) p9) = 2"
    "sparecnt (avail_scan K0 False (member 0 11) p9) = 1"
    by code_simp+
  have i0: "0 < unat (raid_disks (member 0 11))" and i2: "2 < unat (raid_disks (member 0 11))"
    by code_simp+
  have b0: "(if 0 < length (best p9) then best p9 ! 0 else None) = Some 0"
    and b2: "(if 2 < length (best p9) then best p9 ! 2 else None) = Some 2"
    by code_simp+
  have c0: "(sint (level (member 0 11)) \<noteq> - 4 \<longrightarrow>
               state (devices p9 ! 0) AND flag (MD_DISK_SYNC K0) \<noteq> 0) \<and>
            events (devices p9 ! most_recent p9)
              \<le> ll_add (events (devices p9 ! 0)) (if False then 0 else 1)"
    and c2: "\<not> ((sint (level (member 0 11)) \<noteq> - 4 \<longrightarrow>
               state (devices p9 ! 2) AND flag (MD_DISK_SYNC K0) \<noteq> 0) \<and>
            events (devices p9 ! most_recent p9)
              \<le> ll_add (events (devices p9 ! 2)) (if False then 0 else 1))"
    by code_simp+
  from initial_scan [OF loop i0, where force = False] b0 c0
  have u0: "uptodate (devices (avail_scan K0 False (member 0 11) p9) ! 0)"
    by simp
  from initial_scan [OF loop i2, where force = False] b2 c2
  have a2: "\<not> avail (avail_scan K0 False (member 0 11) p9) ! 2"
    by simp
  from loop facts u0 a2 show ?thesis by simp
qed

text \<open>
  The event count of a device comes from \<open>md_event\<close> and lies in the range of a
  \<open>long long\<close>. Unless it is the largest value of the range and the margin is 1, the
  sum of line 410 is the sum of the integers, and the scan marks the device as the
  comparison of the integers says.
\<close>

lemma ll_add_exact:
  assumes "- (2 ^ 63) \<le> a + b" "a + b < 2 ^ 63"
  shows "ll_add a b = a + b"
  unfolding ll_add_def sint_sbintrunc'
  using assms by (simp add: signed_take_bit_int_eq_self)

lemma md_event_range: "- (2 ^ 63) \<le> md_event sb \<and> md_event sb < 2 ^ 63"
  unfolding md_event_def
  using sint_ge [where 'a = 64] sint_lt [where 'a = 64] by simp

lemma probe_loop_events_range:
  assumes "probe_loop K E ident inargv verbose update pstate0 names = (t, Inr p)"
  shows "\<forall>d\<in>set (devices p). - (2 ^ 63) \<le> events d \<and> events d < 2 ^ 63"
proof (rule probe_loop_invariant [OF assms,
      where P = "\<lambda>s. \<forall>d\<in>set (devices s). - (2 ^ 63) \<le> events d \<and> events d < 2 ^ 63"])
  show "\<forall>d\<in>set (devices pstate0). - (2 ^ 63) \<le> events d \<and> events d < 2 ^ 63"
    by (simp add: pstate0_def)
next
  fix s name t s'
  assume "\<forall>d\<in>set (devices s). - (2 ^ 63) \<le> events d \<and> events d < 2 ^ 63"
    "probe_one K E ident inargv verbose update s name = (t, Skipped s')"
  with probe_one_Skipped [of K E ident inargv verbose update s name t s']
  show "\<forall>d\<in>set (devices s'). - (2 ^ 63) \<le> events d \<and> events d < 2 ^ 63" by simp
next
  fix s name t s'
  assume inv: "\<forall>d\<in>set (devices s). - (2 ^ 63) \<le> events d \<and> events d < 2 ^ 63"
    and one: "probe_one K E ident inargv verbose update s name = (t, Committed s')"
  from one obtain fs sb' name' maj mnr where
    s': "s' = commit_device sb' (record_device name' maj mnr sb') (s\<lparr>first_super := fs\<rparr>)"
    by (rule probe_one_Committed)
  from inv md_event_range [where sb = sb']
  show "\<forall>d\<in>set (devices s'). - (2 ^ 63) \<le> events d \<and> events d < 2 ^ 63"
    unfolding s' by (simp add: commit_device_devices record_device_def)
qed

lemma initial_scan_exact:
  assumes loop: "probe_loop K E ident inargv verbose update pstate0 names = (t, Inr p)"
    and i: "i < unat (raid_disks fs)" "i < length (best p)" and b: "best p ! i = Some j"
    and nov: "force \<or> events (devices p ! j) < 2 ^ 63 - 1"
  shows "(uptodate (devices (avail_scan K force fs p) ! j) \<longleftrightarrow>
            (sint (level fs) \<noteq> - 4 \<longrightarrow> state (devices p ! j) AND flag (MD_DISK_SYNC K) \<noteq> 0) \<and>
            events (devices p ! most_recent p)
              \<le> events (devices p ! j) + (if force then 0 else 1)) \<and>
         (avail (avail_scan K force fs p) ! i \<longleftrightarrow>
            (sint (level fs) \<noteq> - 4 \<longrightarrow> state (devices p ! j) AND flag (MD_DISK_SYNC K) \<noteq> 0) \<and>
            events (devices p ! most_recent p)
              \<le> events (devices p ! j) + (if force then 0 else 1))"
proof -
  from i(2) b have "Some j \<in> set (best p)" by (auto dest: nth_mem)
  with probe_loop_best_in_range [OF loop] have j: "j < length (devices p)"
    by (simp add: best_in_range_def)
  with probe_loop_events_range [OF loop]
  have r: "- (2 ^ 63) \<le> events (devices p ! j)" "events (devices p ! j) < 2 ^ 63"
    by simp_all
  have e: "ll_add (events (devices p ! j)) 0 = events (devices p ! j)"
    using r by (intro ll_add_exact [where b = 0, simplified]) auto
  have e1: "ll_add (events (devices p ! j)) 1 = events (devices p ! j) + 1" if "\<not> force"
    using r nov that by (intro ll_add_exact) auto
  note T = initial_scan [OF loop i(1), where force = force]
  show ?thesis
  proof (cases force)
    case True
    with T i(2) b show ?thesis by (simp add: e)
  next
    case False
    with T i(2) b show ?thesis by (simp add: e1)
  qed
qed

text \<open>
  Three members whose superblocks all carry the event count \<open>0x7fffffffffffffff\<close>, the
  largest \<open>long long\<close>.
\<close>

definition newest :: "nat \<Rightarrow> mdp_super" where
  "newest i = (member i 0xffffffff)\<lparr>events_hi := 0x7fffffff\<rparr>"

definition sbs9o :: "string \<Rightarrow> mdp_super option" where
  "sbs9o name =
     (if name = ''a'' then Some (newest 0)
      else if name = ''b'' then Some (newest 1)
      else if name = ''c'' then Some (newest 2)
      else None)"

definition p9o :: pstate where
  "p9o = \<lparr>first_super = Some (newest 0),
           devices = [probed ''a'' (newest 0), probed ''b'' (newest 1),
                      probed ''c'' (newest 2)],
           best = [Some 0, Some 1, Some 2, None, None, None, None, None, None, None],
           most_recent = 0\<rparr>"

text \<open>
  C9: the claim marks the device of a data slot up to date, and sets \<open>avail[i]\<close>, when
  its SYNC bit is set and its event count plus the margin reaches the event count of
  the most recent device. Line 410 adds the margin in a \<open>long long\<close>. With the event
  count \<open>0x7fffffffffffffff\<close> and without force the sum overflows and is negative, so
  the test fails for every device, the most recent one included, although each event
  count plus one is above the most recent count: no device is marked up to date,
  \<open>okcnt\<close> is 0 and the three consistent members are not started.
\<close>

theorem scan_overflow:
  "probe_loop K0 (env0 sbs9o) ident0 True False None pstate0 [''a'', ''b'', ''c'']
     = ([], Inr p9o) \<and>
   map events (devices p9o)
     = [9223372036854775807, 9223372036854775807, 9223372036854775807] \<and>
   map state (devices p9o) = [6, 6, 6] \<and>
   flag (MD_DISK_SYNC K0) = (4 :: u32) \<and>
   events (devices p9o ! most_recent p9o) \<le> events (devices p9o ! 0) + 1 \<and>
   \<not> recent_enough False (astate0 p9o (newest 0)) 0 \<and>
   avail (avail_scan K0 False (newest 0) p9o) = [False, False, False] \<and>
   map uptodate (devices (avail_scan K0 False (newest 0) p9o)) = [False, False, False] \<and>
   okcnt (avail_scan K0 False (newest 0) p9o) = 0 \<and>
   Assemble K0 (env0 sbs9o) ident0 [] [''a'', ''b'', ''c''] False 0 None False False =
     ([Ioctl GET_ARRAY_INFO, Ioctl STOP_ARRAY, Ioctl SET_ARRAY_INFO,
       Ioctl (ADD_NEW_DISK 8 0), Ioctl (ADD_NEW_DISK 8 16), Ioctl (ADD_NEW_DISK 8 32),
       Msg (Assembled_not_enough 0 0)],
      Return 1)"
  by code_simp

section \<open>The force loop\<close>

text \<open>
  A turn of the force loop that goes on prints the ``forcing event count'' message
  once, so the number of these messages in the trace is the number of such turns.
  \<open>stale_slots\<close> counts the slots below \<open>raid_disks\<close> and \<open>bestcnt\<close> whose device the loop
  can still choose; every turn that goes on takes at least one of them away.
\<close>

declare force_loop.simps [simp del]














text \<open>
  Three members arriving in the order 2, 0, 1, so that the index of a device in
  \<open>devices\<close> is not its slot: \<open>x\<close> is member 2 with 12 events, \<open>y\<close> member 0 with 5 and
  \<open>z\<close> member 1 with 4; \<open>w\<close> is a spare. \<open>s1\<close> is the state after the availability scan
  with \<open>force\<close> on, \<open>s1_forced\<close> the state after the loop has rewritten \<open>y\<close>, and
  \<open>s1_failed\<close> the state after it has failed to. In \<open>E7\<close> writing to \<open>y\<close> fails.
\<close>

definition sbs1 :: "string \<Rightarrow> mdp_super option" where
  "sbs1 name =
     (if name = ''x'' then Some (member 2 12)
      else if name = ''y'' then Some (member 0 5)
      else if name = ''z'' then Some (member 1 4)
      else if name = ''w'' then Some ((member 0 12)\<lparr>this_disk := spare_disk\<rparr>)
      else None)"

definition p1 :: pstate where
  "p1 = \<lparr>first_super = Some (member 2 12),
          devices = [probed ''x'' (member 2 12), probed ''y'' (member 0 5),
                     probed ''z'' (member 1 4)],
          best = [Some 1, Some 2, Some 0, None, None, None, None, None, None, None, None, None],
          most_recent = 0\<rparr>"

definition s1 :: astate where
  "s1 = \<lparr>first_super = Some (member 2 12),
          devices = [(probed ''x'' (member 2 12))\<lparr>uptodate := True\<rparr>,
                     probed ''y'' (member 0 5), probed ''z'' (member 1 4)],
          best = [Some 1, Some 2, Some 0, None, None, None, None, None, None, None, None, None],
          most_recent = 0, avail = [False, False, True], okcnt = 1, sparecnt = 0\<rparr>"

definition s1_forced :: astate where
  "s1_forced = s1\<lparr>devices :=
                    [(probed ''x'' (member 2 12))\<lparr>uptodate := True\<rparr>,
                     (probed ''y'' (member 0 5))\<lparr>events := 12, uptodate := True\<rparr>,
                     probed ''z'' (member 1 4)],
                  avail := [False, True, True], okcnt := 2\<rparr>"











text \<open>
  C1: the claim asks for \<open>avail[i]\<close> of the slot \<open>i\<close> whose device was rewritten, inside
  the vector. Line 475 sets \<open>avail[chosen_drive]\<close>, the index of the device in \<open>devices\<close>.
  Here \<open>y\<close>, the device of slot 0, is \<open>devices[1]\<close>: after the turn \<open>avail[0]\<close> is still
  clear and \<open>avail[1]\<close> is set, while the device of slot 1 is not up to date. With the
  four devices \<open>x\<close>, \<open>w\<close>, \<open>z\<close>, \<open>y\<close> the device of slot 0 is \<open>devices[3]\<close> and the write
  goes to \<open>avail[3]\<close>, outside the three entries.
\<close>

theorem force_marks_wrong_slot:
  "probe_loop K0 (env0 sbs1) ident0 True False None pstate0 [''x'', ''y'', ''z''] = ([], Inr p1) \<and>
   avail_scan K0 True (member 2 12) p1 = s1 \<and>
   best s1 ! 0 = Some 1 \<and> best s1 ! 1 = Some 2 \<and>
   select_stale (member 2 12) s1 = Some 1 \<and>
   snd (force_step K0 (env0 sbs1) (member 2 12) s1) = Rewritten s1_forced \<and>
   avail s1_forced = [False, True, True] \<and>
   map uptodate (devices s1_forced) = [True, True, False] \<and>
   snd (Assemble K0 (env0 sbs1) ident0 [] [''x'', ''w'', ''z'', ''y''] False 0 None False True)
     = Undefined"
  by code_simp

section \<open>The kernel calls of an assembly\<close>

text \<open>
  The control calls of a trace, in the order in which they were issued. Only the two calls
  at the head of Assemble and the calls of the last stage (lines 594 to 683) are control
  calls: probing, forcing and reconciling touch the member devices only.
\<close>

fun kernel_calls :: "event list \<Rightarrow> kernel_call list" where
  "kernel_calls [] = []"
| "kernel_calls (Ioctl c # t) = c # kernel_calls t"
| "kernel_calls (Store_super name sb # t) = kernel_calls t"
| "kernel_calls (Msg m # t) = kernel_calls t"

lemma kernel_calls_append [simp]: "kernel_calls (t @ t') = kernel_calls t @ kernel_calls t'"
  by (induction t rule: kernel_calls.induct) simp_all

lemma kernel_calls_set: "c \<in> set (kernel_calls t) \<longleftrightarrow> Ioctl c \<in> set t"
  by (induction t rule: kernel_calls.induct) auto

lemma kernel_calls_probe_msgs [simp]: "kernel_calls (probe_msgs loud name pr) = []"
  by (cases pr) (simp_all add: probe_msgs_def)

lemma kernel_calls_apply_update:
  "apply_update K E verbose upd name sb = (t, r) \<Longrightarrow> kernel_calls t = []"
  by (auto simp: apply_update_def Let_def)

lemma kernel_calls_probe_one:
  "probe_one K E ident inargv verbose update s name = (t, r) \<Longrightarrow> kernel_calls t = []"
  unfolding probe_one_def Let_def
  by (auto split: option.splits probe_result.splits prod.splits bool.splits if_splits
      dest: kernel_calls_apply_update)

lemma kernel_calls_probe_loop:
  "probe_loop K E ident inargv verbose update s names = (t, r) \<Longrightarrow> kernel_calls t = []"
proof (induction names arbitrary: s t r)
  case Nil
  then show ?case by simp
next
  case (Cons name names)
  obtain t1 r1 where one: "probe_one K E ident inargv verbose update s name = (t1, r1)"
    by (cases "probe_one K E ident inargv verbose update s name")
  note t1 = kernel_calls_probe_one [OF one]
  show ?case
  proof (cases r1)
    case (Fatal rc)
    with one t1 Cons.prems show ?thesis by simp
  next
    case (Skipped s')
    obtain t2 r2 where l: "probe_loop K E ident inargv verbose update s' names = (t2, r2)"
      by (cases "probe_loop K E ident inargv verbose update s' names")
    from Cons.IH [OF l] one t1 Skipped l Cons.prems show ?thesis by auto
  next
    case (Committed s')
    obtain t2 r2 where l: "probe_loop K E ident inargv verbose update s' names = (t2, r2)"
      by (cases "probe_loop K E ident inargv verbose update s' names")
    from Cons.IH [OF l] one t1 Committed l Cons.prems show ?thesis by auto
  qed
qed

lemma kernel_calls_force_step:
  "force_step K E fs s = (t, r) \<Longrightarrow> kernel_calls t = []"
  unfolding force_step_def Let_def
  by (auto split: option.splits if_splits)

lemma kernel_calls_force_loop:
  "force_loop K E force fs s = (t, r) \<Longrightarrow> kernel_calls t = []"
proof (induction K E force fs s arbitrary: t r rule: force_loop.induct)
  case (1 K E force fs s)
  note run = "1.prems" [unfolded force_loop.simps [of K E force fs s]]
  obtain t1 r1 where st: "force_step K E fs s = (t1, r1)"
    by (cases "force_step K E fs s")
  note t1 = kernel_calls_force_step [OF st]
  show ?case
  proof (cases "force \<and> \<not> enough E (level fs) (raid_disks fs) (layout fs) (avail s) (okcnt s)")
    case False
    with run show ?thesis by auto
  next
    case True
    show ?thesis
    proof (cases r1)
      case Break
      with True st t1 run show ?thesis by simp
    next
      case (Failed s')
      obtain t2 r2 where l2: "force_loop K E force fs s' = (t2, r2)"
        by (cases "force_loop K E force fs s'")
      from "1.IH"(1) [OF True st [symmetric] Failed l2] True st t1 Failed l2 run
      show ?thesis by auto
    next
      case (Rewritten s')
      obtain t2 r2 where l2: "force_loop K E force fs s' = (t2, r2)"
        by (cases "force_loop K E force fs s'")
      from "1.IH"(2) [OF True st [symmetric] Rewritten l2] True st t1 Rewritten l2 run
      show ?thesis by auto
    next
      case Out_of_bounds
      with True st t1 run show ?thesis by simp
    qed
  qed
qed

lemma kernel_calls_choose_drive:
  "choose_drive E s = (t, r) \<Longrightarrow> kernel_calls t = []"
  by (auto simp: choose_drive_def Let_def split: option.splits if_splits)

lemma kernel_calls_reconcile_step:
  "reconcile_step K force devs bst i sb change = Some (t, r) \<Longrightarrow> kernel_calls t = []"
  unfolding reconcile_step_def Let_def
  by (auto split: option.splits if_splits)

lemma kernel_calls_reconcile_loop:
  "reconcile_loop K force devs bst js sb change = Some (t, r) \<Longrightarrow> kernel_calls t = []"
proof (induction js arbitrary: sb change t r)
  case Nil
  then show ?case by simp
next
  case (Cons i js)
  from Cons.prems obtain t1 sb1 c1 t2 r2 where
    a: "reconcile_step K force devs bst i sb change = Some (t1, sb1, c1)"
    and b: "reconcile_loop K force devs bst js sb1 c1 = Some (t2, r2)"
    and t: "t = t1 @ t2"
    by (auto split: option.splits prod.splits)
  from kernel_calls_reconcile_step [OF a] Cons.IH [OF b] t show ?case by simp
qed

lemma kernel_calls_reconcile:
  "reconcile K force s sb = Some (t, r) \<Longrightarrow> kernel_calls t = []"
  unfolding reconcile_def
  by (auto split: option.splits prod.splits if_splits dest: kernel_calls_reconcile_loop)

lemma kernel_calls_write_back:
  "write_back E force old_linux s chosen sb change = (t, r) \<Longrightarrow> kernel_calls t = []"
  by (auto simp: write_back_def Let_def split: option.splits if_splits)


text \<open>The calls of the loop of line 601 are all \<open>ADD_NEW_DISK\<close>.\<close>

fun is_add :: "kernel_call \<Rightarrow> bool" where
  "is_add (ADD_NEW_DISK maj mnr) = True"
| "is_add c = False"

lemma add_step_calls:
  assumes "add_step E verbose fs devs bst chosen (t, ok, sp) i = (t', ok', sp')"
  shows "\<exists>a. t' = t @ a \<and> list_all is_add (kernel_calls a) \<and>
           (i = length bst \<longrightarrow>
              (case chosen of
                 None \<Rightarrow> kernel_calls a = []
               | Some c \<Rightarrow> kernel_calls a = [ADD_NEW_DISK (major (devs ! c)) (minor (devs ! c))]))"
  using assms unfolding add_step_def
  by (auto split: option.splits if_splits)

lemma add_fold_calls:
  "foldl (add_step E verbose fs devs bst chosen) (t, ok, sp) js = (t', ok', sp') \<Longrightarrow>
   \<exists>a. t' = t @ a \<and> list_all is_add (kernel_calls a)"
proof (induction js arbitrary: t ok sp)
  case Nil
  then show ?case by simp
next
  case (Cons i js)
  obtain t1 ok1 sp1 where
    st: "add_step E verbose fs devs bst chosen (t, ok, sp) i = (t1, ok1, sp1)"
    by (cases "add_step E verbose fs devs bst chosen (t, ok, sp) i") auto
  from add_step_calls [OF st] obtain a where a: "t1 = t @ a" "list_all is_add (kernel_calls a)"
    by blast
  from Cons.prems st have "foldl (add_step E verbose fs devs bst chosen) (t1, ok1, sp1) js
      = (t', ok', sp')" by simp
  from Cons.IH [OF this] obtain b where b: "t' = t1 @ b" "list_all is_add (kernel_calls b)"
    by blast
  from a b have "t' = t @ (a @ b) \<and> list_all is_add (kernel_calls (a @ b))" by simp
  then show ?case by blast
qed

lemma add_disks_calls:
  assumes "add_disks E verbose fs s chosen = (t, ok, sp)"
  shows "list_all is_add (kernel_calls t) \<and>
         (case chosen of
            None \<Rightarrow> True
          | Some c \<Rightarrow>
              kernel_calls t \<noteq> [] \<and>
              last (kernel_calls t) = ADD_NEW_DISK (major (devices s ! c)) (minor (devices s ! c)))"
proof -
  let ?f = "add_step E verbose fs (devices s) (best s) chosen"
  obtain t1 ok1 sp1 where
    f: "foldl ?f ([], okcnt s, sparecnt s) [0 ..< length (best s)] = (t1, ok1, sp1)"
    by (cases "foldl ?f ([], okcnt s, sparecnt s) [0 ..< length (best s)]") auto
  from add_fold_calls [OF f] have a1: "list_all is_add (kernel_calls t1)" by simp
  from assms f have st: "?f (t1, ok1, sp1) (length (best s)) = (t, ok, sp)"
    by (simp add: add_disks_def)
  from add_step_calls [OF st] obtain a where
    a: "t = t1 @ a" "list_all is_add (kernel_calls a)"
    "case chosen of
       None \<Rightarrow> kernel_calls a = []
     | Some c \<Rightarrow> kernel_calls a = [ADD_NEW_DISK (major (devices s ! c)) (minor (devices s ! c))]"
    by blast
  from a1 a show ?thesis by (auto split: option.splits)
qed

lemma run_policy_calls:
  assumes "run_policy K E runstop spo fs av ok sp = (t, r)"
  shows "kernel_calls t =
           (if runstop = 1 \<or>
               (runstop = 0 \<and> enough E (level fs) (raid_disks fs) (layout fs) av ok \<and>
                (req_cnt K fs \<le> ok \<or> spo))
            then [RUN_ARRAY] else [])"
    and "runstop = - 1 \<Longrightarrow> t = [Msg (Assembled_not_started ok)] \<and> r = Return 0"
  using assms unfolding run_policy_def
  by (auto split: if_splits)


text \<open>
  An assembly reaches the last stage (line 585) when the version checks pass, the probe
  loop commits at least one device, the force loop ends inside the vectors, the chosen
  drive (if there is one) loads and the reconciler does not fail. Then \<open>t\<close> is the trace up
  to that line, \<open>fs\<close> the reference superblock, \<open>s\<close> the state and \<open>chosen_drive\<close> the index of
  the chosen drive in \<open>devices\<close>, \<open>None\<close> for the \<open>-1\<close> of the source.
\<close>

definition reaches_plan ::
  "md_consts \<Rightarrow> env \<Rightarrow> mddev_ident \<Rightarrow> string \<Rightarrow> string list \<Rightarrow> string option \<Rightarrow> bool \<Rightarrow> bool \<Rightarrow>
   event list \<Rightarrow> mdp_super \<Rightarrow> astate \<Rightarrow> nat option \<Rightarrow> bool" where
  "reaches_plan K E ident conffile devlist update verbose force t fs s chosen_drive \<longleftrightarrow>
     0 < md_get_version E \<and> 9000 \<le> md_get_version E \<and> \<not> GET_ARRAY_INFO_ok E \<and>
     \<not> (devlist = [] \<and> \<not> ident_uuid_set ident \<and> ident_super_minor ident < 0 \<and>
        ident_devices ident = None) \<and>
     (\<exists>t1 p t2 t3 sb t4 sb' change t5.
        probe_loop K E ident (devlist \<noteq> []) verbose update pstate0
          (if devlist = [] then conf_get_devs E conffile else devlist) = (t1, Inr p) \<and>
        devices p \<noteq> [] \<and> first_super p = Some fs \<and>
        force_loop K E force fs (avail_scan K force fs p) = (t2, Some s) \<and>
        choose_drive E s = (t3, Inr (chosen_drive, sb)) \<and>
        reconcile K force s sb = Some (t4, sb', change) \<and>
        write_back E force (get_linux_version E < 2004000) s chosen_drive sb' change
          = (t5, None) \<and>
        t = [Ioctl GET_ARRAY_INFO, Ioctl STOP_ARRAY]
              @ (if verbose then [Msg Looking_for_devices] else []) @ t1 @ t2 @ t3 @ t4 @ t5)"

lemma reaches_plan_Assemble:
  assumes "reaches_plan K E ident conffile devlist update verbose force t fs s chosen_drive"
  shows "Assemble K E ident conffile devlist readonly runstop update verbose force =
           (t @ fst (execute K E (get_linux_version E < 2004000) runstop (force \<or> devlist = [])
                       verbose fs s chosen_drive),
            snd (execute K E (get_linux_version E < 2004000) runstop (force \<or> devlist = [])
                   verbose fs s chosen_drive))"
  using assms unfolding reaches_plan_def Assemble_def assemble_found_def Let_def
  by (auto split: prod.splits)

lemma reaches_plan_calls:
  assumes "reaches_plan K E ident conffile devlist update verbose force t fs s chosen_drive"
  shows "kernel_calls t = [GET_ARRAY_INFO, STOP_ARRAY]"
  using assms unfolding reaches_plan_def
  by (auto dest!: kernel_calls_probe_loop kernel_calls_force_loop kernel_calls_choose_drive
      kernel_calls_reconcile kernel_calls_write_back)


lemma execute_modern:
  assumes modern: "\<not> old_linux" and ad: "add_disks E verbose fs s chosen_drive = (ta, ok, sp)"
  shows "execute K E old_linux runstop spo verbose fs s chosen_drive =
           (if \<not> SET_ARRAY_INFO_ok E
            then ([Ioctl SET_ARRAY_INFO, Msg SET_ARRAY_INFO_failed], Return 1)
            else (Ioctl SET_ARRAY_INFO # ta @ fst (run_policy K E runstop spo fs (avail s) ok sp),
                  snd (run_policy K E runstop spo fs (avail s) ok sp)))"
  using assms by (simp add: execute_def split: prod.splits)

text \<open>
  The order of the loop of line 601: the devices of the slots of \<open>best\<close>, in slot order,
  leaving out the chosen drive, and then the chosen drive if there is one. The chosen
  drive is the first device, in slot order, that is up to date.
\<close>

definition add_call :: "device list \<Rightarrow> nat \<Rightarrow> kernel_call" where
  "add_call devs j = ADD_NEW_DISK (major (devs ! j)) (minor (devs ! j))"

fun slot_candidates :: "nat option list \<Rightarrow> nat option \<Rightarrow> nat list" where
  "slot_candidates [] chosen = []"
| "slot_candidates (None # bs) chosen = slot_candidates bs chosen"
| "slot_candidates (Some j # bs) chosen =
     (if Some j = chosen then slot_candidates bs chosen else j # slot_candidates bs chosen)"

definition add_order :: "nat option list \<Rightarrow> nat option \<Rightarrow> nat list" where
  "add_order bst chosen =
     slot_candidates bst chosen @ (case chosen of None \<Rightarrow> [] | Some c \<Rightarrow> [c])"

lemma slot_candidates_append:
  "slot_candidates (xs @ ys) chosen = slot_candidates xs chosen @ slot_candidates ys chosen"
  by (induction xs chosen rule: slot_candidates.induct) simp_all

lemma slot_candidates_take_Suc:
  assumes "n < length bst"
  shows "slot_candidates (take (Suc n) bst) chosen =
           slot_candidates (take n bst) chosen @
           (case bst ! n of
              None \<Rightarrow> []
            | Some j \<Rightarrow> if Some j = chosen then [] else [j])"
  using assms
  by (simp add: take_Suc_conv_app_nth slot_candidates_append split: option.splits)

lemma add_step_slot:
  assumes "i < length bst"
  shows "kernel_calls (fst (add_step E verbose fs devs bst chosen (t, ok, sp) i)) =
           kernel_calls t @
           map (add_call devs)
             (case bst ! i of
                None \<Rightarrow> []
              | Some j \<Rightarrow> if Some j = chosen then [] else [j])"
  using assms unfolding add_step_def add_call_def
  by (auto split: option.splits)

lemma add_step_last:
  "kernel_calls (fst (add_step E verbose fs devs bst chosen (t, ok, sp) (length bst))) =
     kernel_calls t @ map (add_call devs) (case chosen of None \<Rightarrow> [] | Some c \<Rightarrow> [c])"
  unfolding add_step_def add_call_def
  by (auto split: option.splits)

lemma add_fold_slots:
  assumes "n \<le> length bst"
  shows "kernel_calls (fst (foldl (add_step E verbose fs devs bst chosen) acc [0 ..< n])) =
           kernel_calls (fst acc) @ map (add_call devs) (slot_candidates (take n bst) chosen)"
  using assms
proof (induction n)
  case 0
  then show ?case by simp
next
  case (Suc n)
  then have n: "n < length bst" and IH:
    "kernel_calls (fst (foldl (add_step E verbose fs devs bst chosen) acc [0 ..< n])) =
       kernel_calls (fst acc) @ map (add_call devs) (slot_candidates (take n bst) chosen)"
    by simp_all
  obtain t ok sp where f: "foldl (add_step E verbose fs devs bst chosen) acc [0 ..< n] = (t, ok, sp)"
    by (cases "foldl (add_step E verbose fs devs bst chosen) acc [0 ..< n]") auto
  from IH f have t: "kernel_calls t =
       kernel_calls (fst acc) @ map (add_call devs) (slot_candidates (take n bst) chosen)"
    by simp
  have "kernel_calls (fst (foldl (add_step E verbose fs devs bst chosen) acc [0 ..< Suc n])) =
        kernel_calls (fst (add_step E verbose fs devs bst chosen (t, ok, sp) n))"
    by (simp add: f)
  also have "\<dots> = kernel_calls t @
           map (add_call devs)
             (case bst ! n of
                None \<Rightarrow> []
              | Some j \<Rightarrow> if Some j = chosen then [] else [j])"
    by (rule add_step_slot [OF n])
  finally show ?case
    unfolding t slot_candidates_take_Suc [OF n] by simp
qed

lemma add_disks_order:
  "kernel_calls (fst (add_disks E verbose fs s chosen)) =
     map (add_call (devices s)) (add_order (best s) chosen)"
proof -
  let ?f = "add_step E verbose fs (devices s) (best s) chosen"
  obtain t ok sp where
    f: "foldl ?f ([], okcnt s, sparecnt s) [0 ..< length (best s)] = (t, ok, sp)"
    by (cases "foldl ?f ([], okcnt s, sparecnt s) [0 ..< length (best s)]") auto
  from add_fold_slots [of "length (best s)" "best s" E verbose fs "devices s" chosen
      "([], okcnt s, sparecnt s)"] f
  have t: "kernel_calls t = map (add_call (devices s)) (slot_candidates (best s) chosen)"
    by simp
  have "kernel_calls (fst (add_disks E verbose fs s chosen)) =
        kernel_calls (fst (?f (t, ok, sp) (length (best s))))"
    by (simp add: add_disks_def f)
  also have "\<dots> = kernel_calls t @
      map (add_call (devices s)) (case chosen of None \<Rightarrow> [] | Some c \<Rightarrow> [c])"
    by (rule add_step_last)
  finally show ?thesis by (simp add: t add_order_def)
qed

lemma first_uptodate_None:
  "first_uptodate devs bst = None \<longleftrightarrow> (\<forall>j. Some j \<in> set bst \<longrightarrow> \<not> uptodate (devs ! j))"
  by (induction devs bst rule: first_uptodate.induct) auto

lemma first_uptodate_Some:
  "first_uptodate devs bst = Some c \<Longrightarrow>
   \<exists>i<length bst. bst ! i = Some c \<and> uptodate (devs ! c) \<and>
      (\<forall>k<i. \<forall>j. bst ! k = Some j \<longrightarrow> \<not> uptodate (devs ! j))"
proof (induction devs bst rule: first_uptodate.induct)
  case (1 devs)
  then show ?case by simp
next
  case (2 devs bs)
  then obtain i where i: "i < length bs" "bs ! i = Some c" "uptodate (devs ! c)"
    "\<forall>k<i. \<forall>j. bs ! k = Some j \<longrightarrow> \<not> uptodate (devs ! j)"
    by auto
  have "\<forall>k<Suc i. \<forall>j. (None # bs) ! k = Some j \<longrightarrow> \<not> uptodate (devs ! j)"
    using i(4) by (auto simp: nth_Cons split: nat.splits)
  with i(1,2,3) show ?case by (intro exI [of _ "Suc i"]) simp
next
  case (3 devs j bs)
  show ?case
  proof (cases "uptodate (devs ! j)")
    case True
    with "3.prems" have "c = j" by simp
    with True show ?thesis by (intro exI [of _ 0]) simp
  next
    case False
    with "3.prems" have "first_uptodate devs bs = Some c" by simp
    from "3.IH" [OF False this] obtain i where i: "i < length bs" "bs ! i = Some c"
      "uptodate (devs ! c)" "\<forall>k<i. \<forall>j. bs ! k = Some j \<longrightarrow> \<not> uptodate (devs ! j)"
      by auto
    have "\<forall>k<Suc i. \<forall>j'. (Some j # bs) ! k = Some j' \<longrightarrow> \<not> uptodate (devs ! j')"
      using i(4) False by (auto simp: nth_Cons split: nat.splits)
    with i(1,2,3) show ?thesis by (intro exI [of _ "Suc i"]) simp
  qed
qed

lemma choose_drive_first:
  assumes "choose_drive E s = (t, Inr (chosen, sb))"
  shows "chosen = first_uptodate (devices s) (best s)"
  using assms unfolding choose_drive_def Let_def
  by (auto split: option.splits if_splits)

lemma reaches_plan_chosen:
  assumes "reaches_plan K E ident conffile devlist update verbose force t fs s chosen_drive"
  shows "chosen_drive = first_uptodate (devices s) (best s)"
  using assms unfolding reaches_plan_def
  by (auto dest: choose_drive_first)

text \<open>
  C5, amended: on a kernel of version 2.4 or later, an assembly that reaches the last
  stage issues, after the two calls of the head, \<open>SET_ARRAY_INFO\<close> exactly once, then only
  \<open>ADD_NEW_DISK\<close> calls, then at most one \<open>RUN_ARRAY\<close>, which is the last call. When
  \<open>SET_ARRAY_INFO\<close> fails nothing follows it. When it succeeds, \<open>ADD_NEW_DISK\<close> is issued
  for the device of every slot of \<open>best\<close>, up to date or not, in slot order, except that
  the chosen drive is held back and added last. The chosen drive is the device of the
  first slot whose device is up to date; when no slot has an up-to-date device there is
  no chosen drive, and the devices of all slots are added in slot order.
\<close>

theorem modern_plan_order:
  assumes plan: "reaches_plan K E ident conffile devlist update verbose force t fs s chosen_drive"
    and modern: "\<not> get_linux_version E < 2004000"
  shows "\<exists>adds run.
           kernel_calls
             (fst (Assemble K E ident conffile devlist readonly runstop update verbose force))
             = [GET_ARRAY_INFO, STOP_ARRAY, SET_ARRAY_INFO] @ adds @ run \<and>
           list_all is_add adds \<and> (run = [] \<or> run = [RUN_ARRAY]) \<and>
           (if SET_ARRAY_INFO_ok E
            then adds = kernel_calls (fst (add_disks E verbose fs s chosen_drive)) \<and>
                 adds = map (add_call (devices s)) (add_order (best s) chosen_drive) \<and>
                 (case chosen_drive of
                    None \<Rightarrow> adds = map (add_call (devices s)) (slot_candidates (best s) None)
                  | Some c \<Rightarrow>
                      adds \<noteq> [] \<and>
                      last adds = ADD_NEW_DISK (major (devices s ! c)) (minor (devices s ! c)))
            else adds = [] \<and> run = []) \<and>
           chosen_drive = first_uptodate (devices s) (best s) \<and>
           (case chosen_drive of
              None \<Rightarrow> \<forall>j. Some j \<in> set (best s) \<longrightarrow> \<not> uptodate (devices s ! j)
            | Some c \<Rightarrow>
                \<exists>i<length (best s).
                   best s ! i = Some c \<and> uptodate (devices s ! c) \<and>
                   (\<forall>k<i. \<forall>j. best s ! k = Some j \<longrightarrow> \<not> uptodate (devices s ! j)))"
proof -
  obtain ta ok sp where ad: "add_disks E verbose fs s chosen_drive = (ta, ok, sp)"
    by (cases "add_disks E verbose fs s chosen_drive") auto
  obtain tr r where rp:
    "run_policy K E runstop (force \<or> devlist = []) fs (avail s) ok sp = (tr, r)"
    by (cases "run_policy K E runstop (force \<or> devlist = []) fs (avail s) ok sp")
  note A = reaches_plan_Assemble [OF plan, of readonly runstop]
  note E = execute_modern [OF modern ad, of K runstop "force \<or> devlist = []"]
  note pre = reaches_plan_calls [OF plan]
  note adds = add_disks_calls [OF ad]
  from add_disks_order [of E verbose fs s chosen_drive] ad
  have ord: "kernel_calls ta = map (add_call (devices s)) (add_order (best s) chosen_drive)"
    by simp
  have ordN: "chosen_drive = None \<Longrightarrow>
      kernel_calls ta = map (add_call (devices s)) (slot_candidates (best s) None)"
    using ord by (simp add: add_order_def)
  from run_policy_calls(1) [OF rp] have run: "kernel_calls tr = [] \<or> kernel_calls tr = [RUN_ARRAY]"
    by (simp split: if_splits)
  note ch = reaches_plan_chosen [OF plan]
  have first: "case chosen_drive of
              None \<Rightarrow> \<forall>j. Some j \<in> set (best s) \<longrightarrow> \<not> uptodate (devices s ! j)
            | Some c \<Rightarrow>
                \<exists>i<length (best s).
                   best s ! i = Some c \<and> uptodate (devices s ! c) \<and>
                   (\<forall>k<i. \<forall>j. best s ! k = Some j \<longrightarrow> \<not> uptodate (devices s ! j))"
  proof (cases chosen_drive)
    case None
    with ch have "first_uptodate (devices s) (best s) = None" by simp
    then have "\<forall>j. Some j \<in> set (best s) \<longrightarrow> \<not> uptodate (devices s ! j)"
      by (simp only: first_uptodate_None)
    with None show ?thesis by simp
  next
    case (Some c)
    with ch have "first_uptodate (devices s) (best s) = Some c" by simp
    from first_uptodate_Some [OF this] Some show ?thesis by simp
  qed
  show ?thesis
  proof (cases "SET_ARRAY_INFO_ok E")
    case False
    have k: "kernel_calls
             (fst (Assemble K E ident conffile devlist readonly runstop update verbose force))
             = [GET_ARRAY_INFO, STOP_ARRAY, SET_ARRAY_INFO] @ [] @ []"
      using False by (simp add: A E pre)
    show ?thesis
      apply (rule exI [of _ "[]"], rule exI [of _ "[]"])
      apply (intro conjI)
           apply (rule k)
          apply simp
         apply simp
        apply (simp add: False)
       apply (rule ch)
      apply (rule first)
      done
  next
    case True
    have k: "kernel_calls
             (fst (Assemble K E ident conffile devlist readonly runstop update verbose force))
             = [GET_ARRAY_INFO, STOP_ARRAY, SET_ARRAY_INFO] @ kernel_calls ta @ kernel_calls tr"
      using True by (simp add: A E pre rp)
    have mid: "if SET_ARRAY_INFO_ok E
            then kernel_calls ta = kernel_calls (fst (add_disks E verbose fs s chosen_drive)) \<and>
                 kernel_calls ta = map (add_call (devices s)) (add_order (best s) chosen_drive) \<and>
                 (case chosen_drive of
                    None \<Rightarrow>
                      kernel_calls ta = map (add_call (devices s)) (slot_candidates (best s) None)
                  | Some c \<Rightarrow>
                      kernel_calls ta \<noteq> [] \<and>
                      last (kernel_calls ta)
                        = ADD_NEW_DISK (major (devices s ! c)) (minor (devices s ! c)))
            else kernel_calls ta = [] \<and> kernel_calls tr = []"
      using True adds ord ordN ad by (simp split: option.splits)
    show ?thesis
      apply (rule exI [of _ "kernel_calls ta"], rule exI [of _ "kernel_calls tr"])
      apply (intro conjI)
           apply (rule k)
          apply (rule adds [THEN conjunct1])
         apply (rule run)
        apply (rule mid)
       apply (rule ch)
      apply (rule first)
      done
  qed
qed

text \<open>
  C6: on a kernel of version 2.4 or later, once \<open>SET_ARRAY_INFO\<close> has succeeded and the
  devices are added (\<open>ok\<close> is \<open>okcnt\<close> after the loop of line 601), \<open>RUN_ARRAY\<close> is issued
  exactly when \<open>runstop\<close> is 1, or \<open>runstop\<close> is 0 and \<open>enough\<close> holds of the availability
  vector and \<open>okcnt\<close> and (\<open>req_cnt \<le> okcnt\<close> or force was given or no device list was
  supplied). With \<open>runstop = -1\<close> the trace ends with the message that the array was
  assembled but not started, and the status is 0. \<open>req_cnt\<close> counts the slots of the
  reference superblock with SYNC and ACTIVE set and FAULTY clear.
\<close>

theorem run_policy_decision:
  assumes plan: "reaches_plan K E ident conffile devlist update verbose force t fs s chosen_drive"
    and modern: "\<not> get_linux_version E < 2004000"
    and set: "SET_ARRAY_INFO_ok E"
    and ad: "add_disks E verbose fs s chosen_drive = (ta, ok, sp)"
  shows "(Ioctl RUN_ARRAY
            \<in> set (fst (Assemble K E ident conffile devlist readonly runstop update verbose force))
          \<longleftrightarrow> runstop = 1 \<or>
              (runstop = 0 \<and> enough E (level fs) (raid_disks fs) (layout fs) (avail s) ok \<and>
               (req_cnt K fs \<le> ok \<or> force \<or> devlist = []))) \<and>
         (runstop = - 1 \<longrightarrow>
            Assemble K E ident conffile devlist readonly runstop update verbose force =
              (t @ Ioctl SET_ARRAY_INFO # ta @ [Msg (Assembled_not_started ok)], Return 0)) \<and>
         unat (req_cnt K fs) =
           card {i. i < MD_SB_DISKS K \<and>
                    d_state (disks fs ! i) AND flag (MD_DISK_SYNC K) \<noteq> 0 \<and>
                    d_state (disks fs ! i) AND flag (MD_DISK_ACTIVE K) \<noteq> 0 \<and>
                    d_state (disks fs ! i) AND flag (MD_DISK_FAULTY K) = 0} mod 2 ^ 32"
proof (intro conjI impI)
  obtain tr r where rp:
    "run_policy K E runstop (force \<or> devlist = []) fs (avail s) ok sp = (tr, r)"
    by (cases "run_policy K E runstop (force \<or> devlist = []) fs (avail s) ok sp")
  note A = reaches_plan_Assemble [OF plan, of readonly runstop]
  note E = execute_modern [OF modern ad, of K runstop "force \<or> devlist = []"]
  note pre = reaches_plan_calls [OF plan]
  from add_disks_calls [OF ad] have "RUN_ARRAY \<notin> set (kernel_calls ta)"
    by (auto simp: list_all_iff)
  moreover have "kernel_calls
             (fst (Assemble K E ident conffile devlist readonly runstop update verbose force))
             = [GET_ARRAY_INFO, STOP_ARRAY, SET_ARRAY_INFO] @ kernel_calls ta @ kernel_calls tr"
    using set by (simp add: A E pre rp)
  ultimately have "RUN_ARRAY \<in> set (kernel_calls
             (fst (Assemble K E ident conffile devlist readonly runstop update verbose force)))
      \<longleftrightarrow> RUN_ARRAY \<in> set (kernel_calls tr)"
    by simp
  with run_policy_calls(1) [OF rp]
  show "Ioctl RUN_ARRAY
            \<in> set (fst (Assemble K E ident conffile devlist readonly runstop update verbose force))
          \<longleftrightarrow> runstop = 1 \<or>
              (runstop = 0 \<and> enough E (level fs) (raid_disks fs) (layout fs) (avail s) ok \<and>
               (req_cnt K fs \<le> ok \<or> force \<or> devlist = []))"
    by (simp add: kernel_calls_set [symmetric])
  {
    assume "runstop = - 1"
    from run_policy_calls(2) [OF rp this] set
    show "Assemble K E ident conffile devlist readonly runstop update verbose force =
              (t @ Ioctl SET_ARRAY_INFO # ta @ [Msg (Assembled_not_started ok)], Return 0)"
      by (simp add: A E rp)
  }
  have "length (filter (\<lambda>i. d_state (disks fs ! i) AND flag (MD_DISK_SYNC K) \<noteq> 0 \<and>
                    d_state (disks fs ! i) AND flag (MD_DISK_ACTIVE K) \<noteq> 0 \<and>
                    d_state (disks fs ! i) AND flag (MD_DISK_FAULTY K) = 0) [0 ..< MD_SB_DISKS K])
        = card {i. i < MD_SB_DISKS K \<and>
                    d_state (disks fs ! i) AND flag (MD_DISK_SYNC K) \<noteq> 0 \<and>
                    d_state (disks fs ! i) AND flag (MD_DISK_ACTIVE K) \<noteq> 0 \<and>
                    d_state (disks fs ! i) AND flag (MD_DISK_FAULTY K) = 0}"
    unfolding length_filter_conv_card
    by (rule arg_cong [where f = card]) auto
  then show "unat (req_cnt K fs) =
           card {i. i < MD_SB_DISKS K \<and>
                    d_state (disks fs ! i) AND flag (MD_DISK_SYNC K) \<noteq> 0 \<and>
                    d_state (disks fs ! i) AND flag (MD_DISK_ACTIVE K) \<noteq> 0 \<and>
                    d_state (disks fs ! i) AND flag (MD_DISK_FAULTY K) = 0} mod 2 ^ 32"
    by (simp add: req_cnt_def unat_of_nat)
qed


text \<open>
  Three members \<open>a\<close>, \<open>b\<close>, \<open>c\<close> of one array with the same event count, and a lone spare
  \<open>w\<close>, with the states that the probe loop and the scan give them.
\<close>

definition sbs2 :: "string \<Rightarrow> mdp_super option" where
  "sbs2 name =
     (if name = ''a'' then Some (member 0 10)
      else if name = ''b'' then Some (member 1 10)
      else if name = ''c'' then Some (member 2 10)
      else None)"

definition s5 :: astate where
  "s5 = \<lparr>first_super = Some (member 0 10),
          devices = [(probed ''a'' (member 0 10))\<lparr>uptodate := True\<rparr>,
                     (probed ''b'' (member 1 10))\<lparr>uptodate := True\<rparr>,
                     (probed ''c'' (member 2 10))\<lparr>uptodate := True\<rparr>],
          best = [Some 0, Some 1, Some 2, None, None, None, None, None, None, None],
          most_recent = 0, avail = [True, True, True], okcnt = 3, sparecnt = 0\<rparr>"

definition spare_sb :: mdp_super where
  "spare_sb = (member 0 12)\<lparr>this_disk := spare_disk\<rparr>"

definition s5w :: astate where
  "s5w = \<lparr>first_super = Some spare_sb,
           devices = [probed ''w'' spare_sb],
           best = [None, None, None, Some 0, None, None, None, None, None, None, None, None,
                   None],
           most_recent = 0, avail = [False, False, False], okcnt = 0, sparecnt = 1\<rparr>"

definition p5 :: pstate where
  "p5 = \<lparr>first_super = Some (member 0 10),
          devices = [probed ''a'' (member 0 10), probed ''b'' (member 1 10),
                     probed ''c'' (member 2 10)],
          best = [Some 0, Some 1, Some 2, None, None, None, None, None, None, None],
          most_recent = 0\<rparr>"

definition p5w :: pstate where
  "p5w = \<lparr>first_super = Some spare_sb, devices = [probed ''w'' spare_sb],
           best = [None, None, None, Some 0, None, None, None, None, None, None, None, None,
                   None],
           most_recent = 0\<rparr>"

lemma reaches_plan_s5:
  "reaches_plan K0 (env0 sbs2) ident0 [] [''a'', ''b'', ''c''] None False False
     [Ioctl GET_ARRAY_INFO, Ioctl STOP_ARRAY] (member 0 10) s5 (Some 0)"
proof -
  have h: "0 < md_get_version (env0 sbs2)" "9000 \<le> md_get_version (env0 sbs2)"
    "\<not> GET_ARRAY_INFO_ok (env0 sbs2)"
    "probe_loop K0 (env0 sbs2) ident0 ([''a'', ''b'', ''c''] \<noteq> []) False None pstate0
       (if [''a'', ''b'', ''c''] = [] then conf_get_devs (env0 sbs2) []
        else [''a'', ''b'', ''c'']) = ([], Inr p5)"
    "devices p5 \<noteq> []" "first_super p5 = Some (member 0 10)"
    "force_loop K0 (env0 sbs2) False (member 0 10) (avail_scan K0 False (member 0 10) p5)
       = ([], Some s5)"
    "choose_drive (env0 sbs2) s5 = ([], Inr (Some 0, member 0 10))"
    "reconcile K0 False s5 (member 0 10) = Some ([], member 0 10, 0)"
    "write_back (env0 sbs2) False (get_linux_version (env0 sbs2) < 2004000) s5 (Some 0)
       (member 0 10) 0 = ([], None)"
    by code_simp+
  show ?thesis
    unfolding reaches_plan_def
    apply (intro conjI)
        apply (rule h)+
     apply simp
    apply (rule exI [of _ "[]"], rule exI [of _ p5], rule exI [of _ "[]"], rule exI [of _ "[]"],
        rule exI [of _ "member 0 10"], rule exI [of _ "[]"], rule exI [of _ "member 0 10"],
        rule exI [of _ 0], rule exI [of _ "[]"])
    apply (intro conjI)
           apply (rule h)+
    apply simp
    done
qed

text \<open>The three members: \<open>a\<close> is the chosen drive and is added last.\<close>

theorem modern_plan_order_witness:
  "reaches_plan K0 (env0 sbs2) ident0 [] [''a'', ''b'', ''c''] None False False
     [Ioctl GET_ARRAY_INFO, Ioctl STOP_ARRAY] (member 0 10) s5 (Some 0) \<and>
   kernel_calls (fst (Assemble K0 (env0 sbs2) ident0 [] [''a'', ''b'', ''c''] False 0 None
                        False False))
     = [GET_ARRAY_INFO, STOP_ARRAY, SET_ARRAY_INFO, ADD_NEW_DISK 8 16, ADD_NEW_DISK 8 32,
        ADD_NEW_DISK 8 0, RUN_ARRAY] \<and>
   last (kernel_calls (fst (add_disks (env0 sbs2) False (member 0 10) s5 (Some 0))))
     = ADD_NEW_DISK 8 0 \<and>
   add_order (best s5) (Some 0) = [1, 2, 0] \<and>
   kernel_calls (fst (add_disks (env0 sbs2) False (member 0 10) s5 (Some 0)))
     = map (add_call (devices s5)) [1, 2, 0] \<and>
   first_uptodate (devices s5) (best s5) = Some 0"
proof -
  have modern: "\<not> get_linux_version (env0 sbs2) < 2004000"
    and set: "SET_ARRAY_INFO_ok (env0 sbs2)"
    and mm: "major (devices s5 ! 0) = 8" "minor (devices s5 ! 0) = 0"
    and ao: "add_order (best s5) (Some 0) = [1, 2, 0]"
    by code_simp+
  have calls: "kernel_calls (fst (Assemble K0 (env0 sbs2) ident0 [] [''a'', ''b'', ''c''] False 0
                 None False False))
     = [GET_ARRAY_INFO, STOP_ARRAY, SET_ARRAY_INFO, ADD_NEW_DISK 8 16, ADD_NEW_DISK 8 32,
        ADD_NEW_DISK 8 0, RUN_ARRAY]"
    by code_simp
  from modern_plan_order [OF reaches_plan_s5 modern, of False 0] set
  obtain adds where "adds = kernel_calls (fst (add_disks (env0 sbs2) False (member 0 10) s5 (Some 0)))"
    "adds = map (add_call (devices s5)) (add_order (best s5) (Some 0))"
    "last adds = ADD_NEW_DISK (major (devices s5 ! 0)) (minor (devices s5 ! 0))"
    "Some 0 = first_uptodate (devices s5) (best s5)"
    by auto
  with mm ao have "last (kernel_calls (fst (add_disks (env0 sbs2) False (member 0 10) s5 (Some 0))))
     = ADD_NEW_DISK 8 0"
    "kernel_calls (fst (add_disks (env0 sbs2) False (member 0 10) s5 (Some 0)))
     = map (add_call (devices s5)) [1, 2, 0]"
    "first_uptodate (devices s5) (best s5) = Some 0"
    by simp_all
  with reaches_plan_s5 calls ao show ?thesis by (intro conjI)
qed




lemma reaches_plan_s5w:
  "reaches_plan K0 (env0 sbs1) ident0 [] [''w''] None False False
     [Ioctl GET_ARRAY_INFO, Ioctl STOP_ARRAY] spare_sb s5w None"
proof -
  have h: "0 < md_get_version (env0 sbs1)" "9000 \<le> md_get_version (env0 sbs1)"
    "\<not> GET_ARRAY_INFO_ok (env0 sbs1)"
    "probe_loop K0 (env0 sbs1) ident0 ([''w''] \<noteq> []) False None pstate0
       (if [''w''] = [] then conf_get_devs (env0 sbs1) [] else [''w'']) = ([], Inr p5w)"
    "devices p5w \<noteq> []" "first_super p5w = Some spare_sb"
    "force_loop K0 (env0 sbs1) False spare_sb (avail_scan K0 False spare_sb p5w)
       = ([], Some s5w)"
    "choose_drive (env0 sbs1) s5w = ([], Inr (None, member 0 0))"
    "reconcile K0 False s5w (member 0 0) = Some ([], member 0 0, 0)"
    "write_back (env0 sbs1) False (get_linux_version (env0 sbs1) < 2004000) s5w None
       (member 0 0) 0 = ([], None)"
    by code_simp+
  show ?thesis
    unfolding reaches_plan_def
    apply (intro conjI)
        apply (rule h)+
     apply simp
    apply (rule exI [of _ "[]"], rule exI [of _ p5w], rule exI [of _ "[]"], rule exI [of _ "[]"],
        rule exI [of _ "member 0 0"], rule exI [of _ "[]"], rule exI [of _ "member 0 0"],
        rule exI [of _ 0], rule exI [of _ "[]"])
    apply (intro conjI)
           apply (rule h)+
    apply simp
    done
qed

text \<open>
  The lone spare \<open>w\<close> is not in sync, so no device is up to date and no drive is chosen
  (\<open>chosen_drive\<close> stays \<open>-1\<close>); line 610 still adds \<open>w\<close>. The last \<open>ADD_NEW_DISK\<close> of this
  assembly is not that of a chosen drive.
\<close>

theorem modern_plan_order_counterexample:
  "reaches_plan K0 (env0 sbs1) ident0 [] [''w''] None False False
     [Ioctl GET_ARRAY_INFO, Ioctl STOP_ARRAY] spare_sb s5w None \<and>
   first_uptodate (devices s5w) (best s5w) = None \<and>
   Assemble K0 (env0 sbs1) ident0 [] [''w''] False 0 None False False =
     ([Ioctl GET_ARRAY_INFO, Ioctl STOP_ARRAY, Ioctl SET_ARRAY_INFO, Ioctl (ADD_NEW_DISK 8 48),
       Msg (Assembled_not_enough 0 1)], Return 1)"
proof -
  have "first_uptodate (devices s5w) (best s5w) = None"
    "Assemble K0 (env0 sbs1) ident0 [] [''w''] False 0 None False False =
     ([Ioctl GET_ARRAY_INFO, Ioctl STOP_ARRAY, Ioctl SET_ARRAY_INFO, Ioctl (ADD_NEW_DISK 8 48),
       Msg (Assembled_not_enough 0 1)], Return 1)"
    by code_simp+
  with reaches_plan_s5w show ?thesis by simp
qed

text \<open>The three members with \<open>runstop\<close> 0 and with \<open>runstop\<close> -1.\<close>

theorem run_policy_decision_witness:
  "reaches_plan K0 (env0 sbs2) ident0 [] [''a'', ''b'', ''c''] None False False
     [Ioctl GET_ARRAY_INFO, Ioctl STOP_ARRAY] (member 0 10) s5 (Some 0) \<and>
   add_disks (env0 sbs2) False (member 0 10) s5 (Some 0) =
     ([Ioctl (ADD_NEW_DISK 8 16), Ioctl (ADD_NEW_DISK 8 32), Ioctl (ADD_NEW_DISK 8 0)], 3, 0) \<and>
   req_cnt K0 (member 0 10) = 3 \<and>
   Ioctl RUN_ARRAY
     \<in> set (fst (Assemble K0 (env0 sbs2) ident0 [] [''a'', ''b'', ''c''] False 0 None False False)) \<and>
   Assemble K0 (env0 sbs2) ident0 [] [''a'', ''b'', ''c''] False (- 1) None False False =
     ([Ioctl GET_ARRAY_INFO, Ioctl STOP_ARRAY, Ioctl SET_ARRAY_INFO, Ioctl (ADD_NEW_DISK 8 16),
       Ioctl (ADD_NEW_DISK 8 32), Ioctl (ADD_NEW_DISK 8 0), Msg (Assembled_not_started 3)],
      Return 0)"
proof -
  have modern: "\<not> get_linux_version (env0 sbs2) < 2004000"
    and set: "SET_ARRAY_INFO_ok (env0 sbs2)"
    and ad: "add_disks (env0 sbs2) False (member 0 10) s5 (Some 0) =
     ([Ioctl (ADD_NEW_DISK 8 16), Ioctl (ADD_NEW_DISK 8 32), Ioctl (ADD_NEW_DISK 8 0)], 3, 0)"
    and rc: "req_cnt K0 (member 0 10) = 3"
    and en: "enough (env0 sbs2) (level (member 0 10)) (raid_disks (member 0 10))
               (layout (member 0 10)) (avail s5) 3"
    by code_simp+
  note T = run_policy_decision [OF reaches_plan_s5 modern set ad, where readonly = False]
  from T [of 0] en rc
  have run: "Ioctl RUN_ARRAY
     \<in> set (fst (Assemble K0 (env0 sbs2) ident0 [] [''a'', ''b'', ''c''] False 0 None False False))"
    by simp
  from T [of "- 1"]
  have stop: "Assemble K0 (env0 sbs2) ident0 [] [''a'', ''b'', ''c''] False (- 1) None False False =
     ([Ioctl GET_ARRAY_INFO, Ioctl STOP_ARRAY, Ioctl SET_ARRAY_INFO, Ioctl (ADD_NEW_DISK 8 16),
       Ioctl (ADD_NEW_DISK 8 32), Ioctl (ADD_NEW_DISK 8 0), Msg (Assembled_not_started 3)],
      Return 0)"
    by simp
  from reaches_plan_s5 ad rc run stop show ?thesis by simp
qed

section \<open>The start of the array on an old kernel\<close>

text \<open>The three members on a 2.2.19 kernel whose \<open>START_ARRAY\<close> fails.\<close>

definition E2 :: env where
  "E2 = (env0 sbs2)\<lparr>get_linux_version := 2002019, START_ARRAY_ok := False\<rparr>"

text \<open>
  C2: the claim asks for a status other than 0 when \<open>START_ARRAY\<close> fails. Lines 677 to 683
  print the message and fall through to \<open>return 0\<close>: Assemble reports success.
\<close>

theorem legacy_start_failure:
  "get_linux_version E2 < 2004000 \<and> \<not> START_ARRAY_ok E2 \<and>
   Assemble K0 E2 ident0 [] [''a'', ''b'', ''c''] False 0 None False False =
     ([Ioctl GET_ARRAY_INFO, Ioctl STOP_ARRAY, Ioctl (START_ARRAY 8 0), Msg Cannot_start_array],
      Return 0)"
  by code_simp

section \<open>The changes of the reconciler\<close>

text \<open>
  The two patches of the loop of line 508 at the slot \<open>i\<close>, read on the superblock the
  loop starts from: the device numbers that the up-to-date candidate of the slot had
  recorded differ from those of \<open>super.disks[i]\<close> (line 530), and the state of
  \<open>super.disks[i]\<close> is not the desired state (line 536). The first is applied always, the
  second under force only.
\<close>

definition desired_state :: "md_consts \<Rightarrow> mdp_super \<Rightarrow> nat \<Rightarrow> u32" where
  "desired_state K sb i =
     (if i < unat (raid_disks sb) then flag (MD_DISK_ACTIVE K) OR flag (MD_DISK_SYNC K) else 0)"

definition renumber_patch :: "device list \<Rightarrow> nat option list \<Rightarrow> mdp_super \<Rightarrow> nat \<Rightarrow> bool" where
  "renumber_patch devs bst sb i =
     (case bst ! i of
        None \<Rightarrow> False
      | Some j \<Rightarrow>
          uptodate (devs ! j) \<and>
          (oldmajor (devs ! j) \<noteq> d_major (disks sb ! i) \<or>
           oldminor (devs ! j) \<noteq> d_minor (disks sb ! i)))"

definition state_patch ::
  "md_consts \<Rightarrow> device list \<Rightarrow> nat option list \<Rightarrow> mdp_super \<Rightarrow> nat \<Rightarrow> bool" where
  "state_patch K devs bst sb i =
     (case bst ! i of
        None \<Rightarrow> False
      | Some j \<Rightarrow> uptodate (devs ! j) \<and> d_state (disks sb ! i) \<noteq> desired_state K sb i)"

definition patched :: "md_consts \<Rightarrow> bool \<Rightarrow> device list \<Rightarrow> nat option list \<Rightarrow> mdp_super \<Rightarrow> nat \<Rightarrow> bool" where
  "patched K force devs bst sb i \<longleftrightarrow>
     renumber_patch devs bst sb i \<or> (force \<and> state_patch K devs bst sb i)"

text \<open>
  The loop visits every slot once and a turn writes \<open>super.disks[i]\<close> of its own slot
  only, so the patches can be read on the superblock the loop starts from.
\<close>

lemma patched_cong:
  assumes "disks sb' ! i = disks sb ! i" "raid_disks sb' = raid_disks sb"
  shows "patched K force devs bst sb' i = patched K force devs bst sb i"
  using assms
  by (simp add: patched_def renumber_patch_def state_patch_def desired_state_def
      split: option.splits)

lemma reconcile_step_frame:
  assumes "reconcile_step K force devs bst i sb change = Some (t, sb', change')"
  shows "level sb' = level sb" "raid_disks sb' = raid_disks sb"
    "k \<noteq> i \<Longrightarrow> disks sb' ! k = disks sb ! k"
  using assms unfolding reconcile_step_def Let_def
  by (auto split: option.splits if_splits)

lemma reconcile_step_change:
  assumes "reconcile_step K force devs bst i sb change = Some (t, sb', change')"
  shows "change' = (if patched K force devs bst sb i then change OR 2 else change)"
  using assms
  unfolding reconcile_step_def Let_def patched_def renumber_patch_def state_patch_def
    desired_state_def
  by (auto split: option.splits if_splits)

lemma reconcile_loop_change:
  assumes "reconcile_loop K force devs bst js sb change = Some (t, sb', change')"
    and "distinct js"
  shows "level sb' = level sb \<and> raid_disks sb' = raid_disks sb \<and>
         (\<forall>k. k \<notin> set js \<longrightarrow> disks sb' ! k = disks sb ! k) \<and>
         change' = (if \<exists>i\<in>set js. patched K force devs bst sb i then change OR 2 else change)"
  using assms
proof (induction js arbitrary: sb change t)
  case Nil
  then show ?case by simp
next
  case (Cons i js)
  from Cons.prems(1) obtain t1 sb1 c1 t2 where
    st: "reconcile_step K force devs bst i sb change = Some (t1, sb1, c1)"
    and lp: "reconcile_loop K force devs bst js sb1 c1 = Some (t2, sb', change')"
    by (auto split: option.splits)
  from Cons.prems(2) have d: "distinct js" and ni: "i \<notin> set js" by simp_all
  note F = reconcile_step_frame [OF st]
  note C = reconcile_step_change [OF st]
  note IH = Cons.IH [OF lp d]
  have pc: "patched K force devs bst sb1 k = patched K force devs bst sb k" if "k \<in> set js" for k
  proof -
    from that ni have "k \<noteq> i" by auto
    from F(3) [OF this] F(2) show ?thesis by (rule patched_cong)
  qed
  have ex: "(\<exists>k\<in>set js. patched K force devs bst sb1 k) = (\<exists>k\<in>set js. patched K force devs bst sb k)"
    using pc by blast
  have l: "level sb' = level sb" using IH F(1) by simp
  have r: "raid_disks sb' = raid_disks sb" using IH F(2) by simp
  have f: "\<forall>k. k \<notin> set (i # js) \<longrightarrow> disks sb' ! k = disks sb ! k"
  proof (intro allI impI)
    fix k assume "k \<notin> set (i # js)"
    then have "k \<notin> set js" "k \<noteq> i" by auto
    with IH F(3) show "disks sb' ! k = disks sb ! k" by simp
  qed
  have or2: "change OR 2 OR 2 = change OR 2" by (simp add: ac_simps)
  have c: "change' = (if \<exists>k\<in>set (i # js). patched K force devs bst sb k
                      then change OR 2 else change)"
  proof -
    from IH have "change' = (if \<exists>k\<in>set js. patched K force devs bst sb1 k then c1 OR 2 else c1)"
      by simp
    then show ?thesis unfolding ex C using or2 by auto
  qed
  from l r f c show ?case by simp
qed

text \<open>Line 556: a forced level 4 or 5 array that misses exactly one drive is set clean.\<close>

definition forced_clean :: "bool \<Rightarrow> astate \<Rightarrow> mdp_super \<Rightarrow> bool" where
  "forced_clean force s sb \<longleftrightarrow>
     force \<and> (level sb = 4 \<or> level sb = 5) \<and> okcnt s = raid_disks sb - 1"

lemma reconcile_change:
  assumes "reconcile K force s sb = Some (t, sb', change)"
  shows "change =
           (if (\<exists>i<length (best s). patched K force (devices s) (best s) sb i) \<or>
               forced_clean force s sb then 2 else 0)"
proof -
  from assms obtain sb1 c1 where
    lp: "reconcile_loop K force (devices s) (best s) [0 ..< length (best s)] sb 0
           = Some (t, sb1, c1)"
    and ch: "change = (if forced_clean force s sb1 then c1 OR 2 else c1)"
    unfolding reconcile_def forced_clean_def
    by (auto split: option.splits if_splits)
  from reconcile_loop_change [OF lp] have
    l: "level sb1 = level sb" and r: "raid_disks sb1 = raid_disks sb"
    and c1: "c1 = (if \<exists>i\<in>set [0 ..< length (best s)]. patched K force (devices s) (best s) sb i
                   then 0 OR 2 else 0)"
    by simp_all
  have fc: "forced_clean force s sb1 = forced_clean force s sb"
    by (simp add: forced_clean_def l r)
  have ex: "(\<exists>i\<in>set [0 ..< length (best s)]. patched K force (devices s) (best s) sb i)
            = (\<exists>i<length (best s). patched K force (devices s) (best s) sb i)"
    by auto
  show ?thesis unfolding ch fc c1 ex by simp
qed

text \<open>
  C4, amended: the renumber patch, the forced state patch and the forced clean state all
  set the same bit 2 of \<open>change\<close>; bit 1 is never set, its only assignment is compiled out
  (lines 521 to 529). So after the reconciler \<open>change\<close> is 0 or 2, and it is 2 exactly
  when some slot was renumbered, or force is given and some slot state was overwritten or
  the array was set clean. The superblock is written back to the chosen drive, with the
  checksum recomputed, exactly when force is given and \<open>change\<close> is 2, whatever the kernel
  version; when the open or the store of this write fails, Assemble ends with status 1.
\<close>

theorem reconciler_write_back:
  assumes "reconcile K force s sb = Some (t, sb', change)"
  shows "(change = 2 \<longleftrightarrow>
            (\<exists>i<length (best s).
               renumber_patch (devices s) (best s) sb i \<or>
               (force \<and> state_patch K (devices s) (best s) sb i)) \<or>
            forced_clean force s sb) \<and>
         (change = 0 \<or> change = 2) \<and>
         write_back E force old_linux s (Some c) sb' change =
           (let name = devname (devices s ! c); out = sb'\<lparr>sb_csum := calc_sb_csum E sb'\<rparr> in
            if force \<and> change = 2 then
              if \<not> writeback_open_ok E name
              then ([Msg (Writeback_cannot_open name)], Some (Return 1))
              else if \<not> writeback_store_ok E name
              then ([Store_super name out, Msg (Writeback_could_not_rewrite name)],
                    Some (Return 1))
              else ([Store_super name out], None)
            else ([], None))"
proof -
  note C = reconcile_change [OF assms]
  have a: "change = 2 \<longleftrightarrow>
            (\<exists>i<length (best s).
               renumber_patch (devices s) (best s) sb i \<or>
               (force \<and> state_patch K (devices s) (best s) sb i)) \<or>
            forced_clean force s sb"
    unfolding C patched_def by simp
  have b: "change = 0 \<or> change = 2" unfolding C by simp
  from b have w: "write_back E force old_linux s (Some c) sb' change =
           (let name = devname (devices s ! c); out = sb'\<lparr>sb_csum := calc_sb_csum E sb'\<rparr> in
            if force \<and> change = 2 then
              if \<not> writeback_open_ok E name
              then ([Msg (Writeback_cannot_open name)], Some (Return 1))
              else if \<not> writeback_store_ok E name
              then ([Store_super name out, Msg (Writeback_could_not_rewrite name)],
                    Some (Return 1))
              else ([Store_super name out], None)
            else ([], None))"
    by (auto simp add: write_back_def Let_def)
  from a b w show ?thesis by (intro conjI)
qed


text \<open>
  The three members, where \<open>b\<close> records the major number 9 for itself and the superblock
  of \<open>a\<close> records 8 for slot 1; \<open>sb4\<close> is the superblock of \<open>a\<close> after the renumber patch.
\<close>

definition moved_disk :: mdp_disk where
  "moved_disk = (disk0 1)\<lparr>d_major := 9\<rparr>"

definition sbs4 :: "string \<Rightarrow> mdp_super option" where
  "sbs4 name =
     (if name = ''a'' then Some (member 0 10)
      else if name = ''b'' then Some ((member 1 10)\<lparr>this_disk := moved_disk\<rparr>)
      else if name = ''c'' then Some (member 2 10) else None)"

definition s4 :: astate where
  "s4 = \<lparr>first_super = Some (member 0 10),
          devices = [(probed ''a'' (member 0 10))\<lparr>uptodate := True\<rparr>,
                     (probed ''b'' ((member 1 10)\<lparr>this_disk := moved_disk\<rparr>))\<lparr>uptodate := True\<rparr>,
                     (probed ''c'' (member 2 10))\<lparr>uptodate := True\<rparr>],
          best = [Some 0, Some 1, Some 2, None, None, None, None, None, None, None],
          most_recent = 0, avail = [True, True, True], okcnt = 3, sparecnt = 0\<rparr>"

definition p4 :: pstate where
  "p4 = \<lparr>first_super = Some (member 0 10),
          devices = [probed ''a'' (member 0 10),
                     probed ''b'' ((member 1 10)\<lparr>this_disk := moved_disk\<rparr>),
                     probed ''c'' (member 2 10)],
          best = [Some 0, Some 1, Some 2, None, None, None, None, None, None, None],
          most_recent = 0\<rparr>"

definition sb4 :: mdp_super where
  "sb4 = (member 0 10)\<lparr>disks := [disk0 0, moved_disk, disk0 2] @ replicate 24 no_disk\<rparr>"

definition E4 :: env where
  "E4 = (env0 sbs4)\<lparr>get_linux_version := 2002019\<rparr>"

text \<open>
  On a 2.2.19 kernel without force the renumber patch of slot 1 is recorded as
  \<open>change = 2\<close> and nothing is written back: the array is started from the unpatched
  superblock on \<open>a\<close>.
\<close>

theorem reconciler_write_back_counterexample:
  "get_linux_version E4 < 2004000 \<and>
   probe_loop K0 E4 ident0 True False None pstate0 [''a'', ''b'', ''c''] = ([], Inr p4) \<and>
   avail_scan K0 False (member 0 10) p4 = s4 \<and>
   choose_drive E4 s4 = ([], Inr (Some 0, member 0 10)) \<and>
   renumber_patch (devices s4) (best s4) (member 0 10) 1 \<and>
   reconcile K0 False s4 (member 0 10) = Some ([], sb4, 2) \<and>
   write_back E4 False True s4 (Some 0) sb4 2 = ([], None) \<and>
   Assemble K0 E4 ident0 [] [''a'', ''b'', ''c''] False 0 None False False =
     ([Ioctl GET_ARRAY_INFO, Ioctl STOP_ARRAY, Ioctl (START_ARRAY 8 0)], Return 0)"
  by code_simp

text \<open>With force on a 2.4 kernel the same renumber patch is written back to \<open>a\<close>.\<close>

theorem reconciler_write_back_witness:
  "reconcile K0 True s4 (member 0 10) = Some ([], sb4, 2) \<and>
   ((\<exists>i<length (best s4).
       renumber_patch (devices s4) (best s4) (member 0 10) i \<or>
       state_patch K0 (devices s4) (best s4) (member 0 10) i) \<or>
    forced_clean True s4 (member 0 10)) \<and>
   write_back (env0 sbs4) True False s4 (Some 0) sb4 2 =
     ([Store_super ''a'' (sb4\<lparr>sb_csum := 0\<rparr>)], None)"
proof -
  have rec: "reconcile K0 True s4 (member 0 10) = Some ([], sb4, 2)"
    and h: "devname (devices s4 ! 0) = ''a''" "writeback_open_ok (env0 sbs4) ''a''"
      "writeback_store_ok (env0 sbs4) ''a''" "calc_sb_csum (env0 sbs4) sb4 = 0"
    by code_simp+
  note T = reconciler_write_back [OF rec, of "env0 sbs4" False 0]
  from T have a: "(\<exists>i<length (best s4).
       renumber_patch (devices s4) (best s4) (member 0 10) i \<or>
       state_patch K0 (devices s4) (best s4) (member 0 10) i) \<or>
    forced_clean True s4 (member 0 10)"
    by simp
  from T h have w: "write_back (env0 sbs4) True False s4 (Some 0) sb4 2 =
     ([Store_super ''a'' (sb4\<lparr>sb_csum := 0\<rparr>)], None)"
    by (simp add: Let_def)
  from rec a w show ?thesis by (intro conjI)
qed

end
